theory Spec2Isabelle
  imports Main "HOL-Library.Sublist" "HOL-Library.Multiset"
begin

section \<open>JavaScript strings\<close>

text \<open>
  A JavaScript string is modelled as a \<^typ>\<open>string\<close>: every \<^typ>\<open>char\<close> stands for one
  code unit below 256. The backslash has no literal syntax and is written \<open>CHR 0x5C\<close>.
\<close>

definition startsWith :: "string \<Rightarrow> string \<Rightarrow> bool" where
  "startsWith s p = prefix p s"

definition endsWith :: "string \<Rightarrow> string \<Rightarrow> bool" where
  "endsWith s p = suffix p s"

definition str_includes :: "string \<Rightarrow> string \<Rightarrow> bool" where
  "str_includes s n = sublist n s"

text \<open>
  \<open>s.replace(/lit/g, rep)\<close> for a regular expression that is one literal, non-empty
  character sequence and a replacement without \<open>$\<close>: the matches are taken leftmost
  first and do not overlap.
\<close>

function replace_g :: "string \<Rightarrow> string \<Rightarrow> string \<Rightarrow> string" where
  "replace_g lit rep [] = []"
| "replace_g lit rep (c # cs) =
     (if lit \<noteq> [] \<and> prefix lit (c # cs)
      then rep @ replace_g lit rep (drop (length lit) (c # cs))
      else c # replace_g lit rep cs)"
  by pat_completeness auto
termination
  by (relation "measure (\<lambda>(lit, rep, s). length s)") (auto simp: Suc_le_eq)

section \<open>The regular expressions of the host language\<close>

text \<open>
  \<open>new RegExp(src)\<close> either throws a \<open>SyntaxError\<close> or yields a matcher. The model
  parses the part of the pattern syntax written below; a pattern that uses anything else
  (braces, a lone \<open>]\<close>, \<open>(?\<close> groups, escapes of letters and digits, ranges and
  escapes inside a class) is answered by \<open>Unmodelled\<close>: the model then says nothing
  about the program, neither that it throws nor what it returns.
\<close>

datatype error = SyntaxError | Unmodelled

datatype re =
    Eps
  | Chr char
  | Dot
  | Cls bool "char list"
  | Bol
  | Eol
  | Seq re re
  | Alt re re
  | Star re
  | Plus re
  | Opt re

datatype qst = Quantifiable | Quantified | Fixed

datatype frame = Frame (alts: "re list") (items: "(re \<times> qst) list")

datatype pmode = Normal | Esc | ClsOpen | ClsBody bool "char list"

definition seq_of :: "(re \<times> qst) list \<Rightarrow> re" where
  "seq_of its = foldr Seq (map fst its) Eps"

definition close_frame :: "frame \<Rightarrow> re" where
  "close_frame f = foldr Alt (alts f) (seq_of (items f))"

definition push_item :: "re \<Rightarrow> frame list \<Rightarrow> error + pmode \<times> frame list" where
  "push_item r st =
     (case st of
        [] \<Rightarrow> Inl SyntaxError
      | f # fs \<Rightarrow> Inr (Normal, Frame (alts f) (items f @ [(r, Quantifiable)]) # fs))"

definition push_assert :: "re \<Rightarrow> frame list \<Rightarrow> error + pmode \<times> frame list" where
  "push_assert r st =
     (case st of
        [] \<Rightarrow> Inl SyntaxError
      | f # fs \<Rightarrow> Inr (Normal, Frame (alts f) (items f @ [(r, Fixed)]) # fs))"

definition quantify :: "char \<Rightarrow> frame list \<Rightarrow> error + pmode \<times> frame list" where
  "quantify c st =
     (case st of
        [] \<Rightarrow> Inl SyntaxError
      | f # fs \<Rightarrow>
          (if items f = [] then
             (if c = CHR ''?'' \<and> alts f = [] \<and> fs \<noteq> [] then Inl Unmodelled
              else Inl SyntaxError)
           else
             (case last (items f) of
                (r, Quantifiable) \<Rightarrow>
                  Inr (Normal,
                       Frame (alts f)
                         (butlast (items f) @
                          [((if c = CHR ''*'' then Star r
                             else if c = CHR ''+'' then Plus r else Opt r), Quantified)]) # fs)
              | (r, Quantified) \<Rightarrow>
                  (if c = CHR ''?''
                   then Inr (Normal, Frame (alts f) (butlast (items f) @ [(r, Fixed)]) # fs)
                   else Inl SyntaxError)
              | (r, Fixed) \<Rightarrow> Inl SyntaxError)))"

definition syntax_char :: "char \<Rightarrow> bool" where
  "syntax_char c = (c \<in> set ''^$.*+?()[]{}|/'' \<or> c = CHR 0x5C)"

definition pstep :: "pmode \<times> frame list \<Rightarrow> char \<Rightarrow> error + pmode \<times> frame list" where
  "pstep ms c =
     (case ms of
        (Normal, st) \<Rightarrow>
          (if c = CHR ''('' then Inr (Normal, Frame [] [] # st)
           else if c = CHR '')'' then
             (case st of
                f # g # fs \<Rightarrow> push_item (close_frame f) (g # fs)
              | _ \<Rightarrow> Inl SyntaxError)
           else if c = CHR ''|'' then
             (case st of
                f # fs \<Rightarrow> Inr (Normal, Frame (alts f @ [seq_of (items f)]) [] # fs)
              | [] \<Rightarrow> Inl SyntaxError)
           else if c = CHR ''*'' \<or> c = CHR ''+'' \<or> c = CHR ''?'' then quantify c st
           else if c = CHR ''['' then Inr (ClsOpen, st)
           else if c = CHR 0x5C then Inr (Esc, st)
           else if c = CHR ''^'' then push_assert Bol st
           else if c = CHR ''$'' then push_assert Eol st
           else if c = CHR ''.'' then push_item Dot st
           else if c = CHR ''{'' \<or> c = CHR ''}'' \<or> c = CHR '']'' then Inl Unmodelled
           else push_item (Chr c) st)
      | (Esc, st) \<Rightarrow> (if syntax_char c then push_item (Chr c) st else Inl Unmodelled)
      | (ClsOpen, st) \<Rightarrow>
          (if c = CHR ''^'' then Inr (ClsBody True [], st)
           else if c = CHR '']'' then push_item (Cls False []) st
           else if c = CHR 0x5C \<or> c = CHR ''-'' then Inl Unmodelled
           else Inr (ClsBody False [c], st))
      | (ClsBody neg cs, st) \<Rightarrow>
          (if c = CHR '']'' then push_item (Cls neg cs) st
           else if c = CHR 0x5C \<or> c = CHR ''-'' then Inl Unmodelled
           else Inr (ClsBody neg (cs @ [c]), st)))"

fun psteps :: "pmode \<times> frame list \<Rightarrow> string \<Rightarrow> error + pmode \<times> frame list" where
  "psteps ms [] = Inr ms"
| "psteps ms (c # cs) = (case pstep ms c of Inl e \<Rightarrow> Inl e | Inr ms' \<Rightarrow> psteps ms' cs)"

definition RegExp :: "string \<Rightarrow> error + re" where
  "RegExp src =
     (case psteps (Normal, [Frame [] []]) src of
        Inl e \<Rightarrow> Inl e
      | Inr (Normal, [f]) \<Rightarrow> Inr (close_frame f)
      | Inr _ \<Rightarrow> Inl SyntaxError)"

text \<open>
  Matching: \<open>ends r s i\<close> lists the positions at which a match of \<open>r\<close> that starts at
  position \<open>i\<close> of \<open>s\<close> can end. No flag is set: \<open>.\<close> excludes the line terminators,
  \<open>^\<close> and \<open>$\<close> hold at the two ends of the input only. An iteration that consumes
  nothing reaches no new position, so a repetition needs at most \<open>length s\<close> rounds.
\<close>

fun reach :: "(nat \<Rightarrow> nat list) \<Rightarrow> nat \<Rightarrow> nat \<Rightarrow> nat list" where
  "reach f 0 i = [i]"
| "reach f (Suc n) i = i # concat (map (reach f n) (filter (\<lambda>j. i < j) (f i)))"

definition line_terminator :: "char \<Rightarrow> bool" where
  "line_terminator c = (c = CHR 0x0A \<or> c = CHR 0x0D)"

primrec ends :: "re \<Rightarrow> string \<Rightarrow> nat \<Rightarrow> nat list" where
  "ends Eps s i = [i]"
| "ends (Chr c) s i = (if i < length s \<and> s ! i = c then [Suc i] else [])"
| "ends Dot s i = (if i < length s \<and> \<not> line_terminator (s ! i) then [Suc i] else [])"
| "ends (Cls neg cs) s i =
     (if i < length s \<and> ((s ! i \<in> set cs) \<noteq> neg) then [Suc i] else [])"
| "ends Bol s i = (if i = 0 then [i] else [])"
| "ends Eol s i = (if i = length s then [i] else [])"
| "ends (Seq a b) s i = concat (map (ends b s) (ends a s i))"
| "ends (Alt a b) s i = ends a s i @ ends b s i"
| "ends (Star a) s i = reach (ends a s) (length s) i"
| "ends (Plus a) s i = concat (map (reach (ends a s) (length s)) (ends a s i))"
| "ends (Opt a) s i = i # ends a s i"

definition re_test :: "re \<Rightarrow> string \<Rightarrow> bool" where
  "re_test r s = list_ex (\<lambda>i. ends r s i \<noteq> []) [0..<Suc (length s)]"

section \<open>The ownership rules (codeowners.js)\<close>

text \<open>The constant \<open>regexPattern\<close> of \<open>matchPattern\<close>: the chain of five replacements.\<close>

definition regexPattern :: "string \<Rightarrow> string" where
  "regexPattern pat =
     replace_g ''*'' ''[^/]*''
      (replace_g ''**'' ''.*''
        (replace_g ''/**'' (''('' @ CHR 0x5C # ''/.*)?'')
          (replace_g ''**/'' (''(.*'' @ CHR 0x5C # ''/)?'')
            (replace_g ''.'' [CHR 0x5C, CHR ''.''] pat))))"

definition matchPattern :: "string \<Rightarrow> string \<Rightarrow> error + bool" where
  "matchPattern filename pattern =
     (if pattern = ''*'' then Inr True
      else
        let file = (if startsWith filename ''/'' then drop 1 filename else filename);
            pat = (if startsWith pattern ''/'' then drop 1 pattern else pattern)
        in
          if file = pat then Inr True
          else if endsWith pat ''/'' then
            (let dir = butlast pat in Inr (startsWith file (dir @ ''/'') \<or> file = dir))
          else if startsWith pat ''*.'' then
            (let ext = drop 1 pat in Inr (endsWith file ext))
          else if CHR ''*'' \<in> set pat then
            (case RegExp (''^'' @ regexPattern pat @ ''$'') of
               Inl e \<Rightarrow> Inl e
             | Inr regex \<Rightarrow> Inr (re_test regex file))
          else if CHR ''.'' \<notin> set pat \<and> CHR ''*'' \<notin> set pat then
            Inr (startsWith file (pat @ ''/'') \<or> file = pat)
          else Inr False)"

record rule =
  pattern :: string
  owners :: "string list"

fun matchFileToOwners_loop :: "string \<Rightarrow> rule list \<Rightarrow> string list \<Rightarrow> error + string list" where
  "matchFileToOwners_loop filename [] matchedOwners = Inr matchedOwners"
| "matchFileToOwners_loop filename (r # rs) matchedOwners =
     (case matchPattern filename (pattern r) of
        Inl e \<Rightarrow> Inl e
      | Inr b \<Rightarrow> matchFileToOwners_loop filename rs (if b then owners r else matchedOwners))"

definition matchFileToOwners :: "string \<Rightarrow> rule list \<Rightarrow> error + string list" where
  "matchFileToOwners filename codeowners = matchFileToOwners_loop filename codeowners []"

text \<open>
  \<open>getPRCodeowners\<close>: the changed files are fetched by the API gateway and are an
  input here (their \<open>filename\<close> fields). \<open>allOwners\<close> is a JavaScript \<open>Set\<close>, which
  keeps insertion order: a list without duplicates.
\<close>

definition set_add :: "string list \<Rightarrow> string \<Rightarrow> string list" where
  "set_add allOwners owner = (if owner \<in> set allOwners then allOwners else allOwners @ [owner])"

fun getPRCodeowners_loop :: "string list \<Rightarrow> rule list \<Rightarrow> string list \<Rightarrow> error + string list" where
  "getPRCodeowners_loop [] codeowners allOwners = Inr allOwners"
| "getPRCodeowners_loop (file # files) codeowners allOwners =
     (case matchFileToOwners file codeowners of
        Inl e \<Rightarrow> Inl e
      | Inr matchedOwners \<Rightarrow>
          getPRCodeowners_loop files codeowners
            (if length matchedOwners > 0 then foldl set_add allOwners matchedOwners
             else allOwners))"

definition getPRCodeowners :: "string list \<Rightarrow> rule list \<Rightarrow> error + string list" where
  "getPRCodeowners files codeowners = getPRCodeowners_loop files codeowners []"

subsection \<open>The rule parser\<close>

text \<open>White space and line terminators, as \<open>trim\<close> and \<open>\s\<close> see them, below 256.\<close>

definition is_space :: "char \<Rightarrow> bool" where
  "is_space c = (c \<in> {CHR 0x09, CHR 0x0A, CHR 0x0B, CHR 0x0C, CHR 0x0D, CHR 0x20, CHR 0xA0})"

definition trim :: "string \<Rightarrow> string" where
  "trim s = rev (dropWhile is_space (rev (dropWhile is_space s)))"

text \<open>\<open>s.split(c)\<close> for a one-character separator.\<close>

fun split_on :: "char \<Rightarrow> string \<Rightarrow> string list" where
  "split_on c [] = [[]]"
| "split_on c (x # xs) =
     (if x = c then [] # split_on c xs
      else (case split_on c xs of [] \<Rightarrow> [[x]] | l # ls \<Rightarrow> (x # l) # ls))"

text \<open>\<open>s.split(/\s+/)\<close>: a piece ends at every maximal run of white space.\<close>

function split_ws :: "string \<Rightarrow> string list" where
  "split_ws [] = [[]]"
| "split_ws (x # xs) =
     (if is_space x then [] # split_ws (dropWhile is_space xs)
      else (case split_ws xs of [] \<Rightarrow> [[x]] | l # ls \<Rightarrow> (x # l) # ls))"
  by pat_completeness auto
termination
  by (relation "measure length") (auto simp: less_Suc_eq_le length_dropWhile_le)

text \<open>
  \<open>s.replace(needle, rep)\<close> for a string needle: the first occurrence only, and the
  replacement patterns of the language (\<open>$$\<close>, \<open>$&\<close>, \<open>$`\<close>, \<open>$'\<close>) expanded; with no
  capture group, \<open>$\<close> before anything else stands for itself.
\<close>

fun find_sub :: "string \<Rightarrow> string \<Rightarrow> (string \<times> string) option" where
  "find_sub needle [] = (if needle = [] then Some ([], []) else None)"
| "find_sub needle (c # cs) =
     (if prefix needle (c # cs) then Some ([], drop (length needle) (c # cs))
      else (case find_sub needle cs of None \<Rightarrow> None | Some (b, a) \<Rightarrow> Some (c # b, a)))"

fun get_substitution :: "string \<Rightarrow> string \<Rightarrow> string \<Rightarrow> string \<Rightarrow> string" where
  "get_substitution m b a [] = []"
| "get_substitution m b a [c] = [c]"
| "get_substitution m b a (c # d # r) =
     (if c = CHR ''$'' then
        (if d = CHR ''$'' then CHR ''$'' # get_substitution m b a r
         else if d = CHR ''&'' then m @ get_substitution m b a r
         else if d = CHR 0x60 then b @ get_substitution m b a r
         else if d = CHR 0x27 then a @ get_substitution m b a r
         else c # get_substitution m b a (d # r))
      else c # get_substitution m b a (d # r))"

definition replace_s :: "string \<Rightarrow> string \<Rightarrow> string \<Rightarrow> string" where
  "replace_s needle rep s =
     (case find_sub needle s of
        None \<Rightarrow> s
      | Some (b, a) \<Rightarrow> b @ get_substitution needle b a rep @ a)"

definition parse_line :: "rule list \<Rightarrow> string \<Rightarrow> rule list" where
  "parse_line rules line =
     (let trimmed = trim line in
      if trimmed = [] \<or> startsWith trimmed ''#'' then rules
      else
        let parts = split_ws trimmed in
        if length parts < 2 then rules
        else
          let pattern = hd parts;
              owners = filter (\<lambda>owner. CHR ''/'' \<notin> set owner)
                         (map (\<lambda>owner. replace_s ''@'' [] owner) (drop 1 parts))
          in if length owners > 0 then rules @ [\<lparr>pattern = pattern, owners = owners\<rparr>]
             else rules)"

definition parseCodeowners :: "string \<Rightarrow> rule list" where
  "parseCodeowners content = foldl parse_line [] (split_on CHR 0x0A content)"

section \<open>Comments on pull requests (github-service.js)\<close>

text \<open>
  The entries that \<open>run\<close> hands to \<open>commentOnPRs\<close>. A field that can be absent is an
  option; the day counts are results of \<open>Math.floor\<close> on a non-negative quotient, far
  below \<open>10^21\<close>, so that their string is the decimal numeral.
\<close>

record pull_request =
  number :: nat
  author :: string
  daysSinceCreated :: "nat option"
  daysSinceUpdate :: "nat option"
  assignees :: "string list option"
  requested_reviewers :: "string list option"

text \<open>
  A comment as the API lists it: \<open>user.type\<close>, \<open>body\<close> and \<open>created_at\<close> in
  milliseconds (\<open>None\<close> for a text that is no date).
\<close>

record comment =
  user_type :: string
  body :: string
  created_at :: "int option"

function show_nat :: "nat \<Rightarrow> string" where
  "show_nat n =
     (if n < 10 then [''0123456789'' ! n]
      else show_nat (n div 10) @ [''0123456789'' ! (n mod 10)])"
  by pat_completeness auto
termination
  by (relation "measure id") auto

declare show_nat.simps [simp del]

definition days_string :: "pull_request \<Rightarrow> string" where
  "days_string p =
     (case (case daysSinceCreated p of
              Some n \<Rightarrow> (if n \<noteq> 0 then Some n else daysSinceUpdate p)
            | None \<Rightarrow> daysSinceUpdate p) of
        Some n \<Rightarrow> show_nat n
      | None \<Rightarrow> ''undefined'')"

fun join :: "string \<Rightarrow> string list \<Rightarrow> string" where
  "join sep [] = []"
| "join sep [x] = x"
| "join sep (x # y # ys) = x @ sep @ join sep (y # ys)"

definition assignees_string :: "pull_request \<Rightarrow> string" where
  "assignees_string p =
     (case assignees p of
        Some (a # as) \<Rightarrow> join '', '' (map (\<lambda>login. CHR ''@'' # login) (a # as))
      | _ \<Rightarrow> CHR ''@'' # author p)
     @ (case requested_reviewers p of
          Some (r # rs) \<Rightarrow> join '', '' (map (\<lambda>login. '' @'' @ login) (r # rs))
        | _ \<Rightarrow> [])"

definition comment_message :: "string \<Rightarrow> pull_request \<Rightarrow> string" where
  "comment_message messageTemplate p =
     replace_s ''{assignees}'' (assignees_string p)
       (replace_s ''{days}'' (days_string p) messageTemplate)"

text \<open>
  The quotient of the age by the milliseconds of a day is below the threshold exactly
  when the age is below the threshold in milliseconds, for every time stamp that a date
  can hold (below \<open>2^53\<close> milliseconds) and every threshold of days.
\<close>

definition hasRecentBotComment ::
  "comment list \<Rightarrow> (comment \<Rightarrow> bool) \<Rightarrow> int \<Rightarrow> int \<Rightarrow> comment option" where
  "hasRecentBotComment comments predicate dayThreshold now =
     List.find (\<lambda>c. user_type c = ''Bot'' \<and> predicate c \<and>
                  (case created_at c of
                     None \<Rightarrow> False
                   | Some t \<Rightarrow> now - t < dayThreshold * (1000 * 60 * 60 * 24)))
       comments"

text \<open>
  The comments of every issue are the state; \<open>createComment\<close> appends one, written by
  the bot account of the action at the time of the run. The API calls are taken to
  succeed.
\<close>

definition createComment ::
  "(nat \<Rightarrow> comment list) \<Rightarrow> nat \<Rightarrow> string \<Rightarrow> int \<Rightarrow> (nat \<Rightarrow> comment list)" where
  "createComment store issueNumber message now =
     store (issueNumber :=
       store issueNumber @ [\<lparr>user_type = ''Bot'', body = message, created_at = Some now\<rparr>])"

definition commentOnPR ::
  "string \<Rightarrow> int \<Rightarrow> int \<Rightarrow> (nat \<Rightarrow> comment list) \<Rightarrow> pull_request \<Rightarrow> (nat \<Rightarrow> comment list)" where
  "commentOnPR messageTemplate dayThreshold now store p =
     (case hasRecentBotComment (store (number p))
             (\<lambda>c. str_includes (body c) ''This PR has been inactive'') dayThreshold now of
        None \<Rightarrow> createComment store (number p) (comment_message messageTemplate p) now
      | Some c \<Rightarrow> store)"

definition commentOnPRs ::
  "pull_request list \<Rightarrow> string \<Rightarrow> int \<Rightarrow> int \<Rightarrow> (nat \<Rightarrow> comment list) \<Rightarrow> (nat \<Rightarrow> comment list)" where
  "commentOnPRs prs messageTemplate dayThreshold now store =
     foldl (commentOnPR messageTemplate dayThreshold now) store prs"

text \<open>
  The template of \<open>run\<close> for pull requests without a review. Its first character, the
  eyes emoji, lies outside the code units of the model: the four bytes of its UTF-8
  form stand for it.
\<close>

definition needsReviewTemplate :: string where
  "needsReviewTemplate =
     [CHR 0xF0, CHR 0x9F, CHR 0x91, CHR 0x80] @
     '' This PR has been open for {days} days without any reviews. {assignees} please take a look!''"

text \<open>
  The two comment passes at the end of \<open>run\<close>: the stalled pull requests with the
  configured message, then the pull requests without a review with the built-in
  template, both with the default threshold of seven days.
\<close>

definition run_comments ::
  "bool \<Rightarrow> string \<Rightarrow> pull_request list \<Rightarrow> pull_request list \<Rightarrow> int
     \<Rightarrow> (nat \<Rightarrow> comment list) \<Rightarrow> (nat \<Rightarrow> comment list)" where
  "run_comments autoComment commentMessage stalled needsReview now store =
     (let store1 = (if autoComment \<and> length stalled > 0
                    then commentOnPRs stalled commentMessage 7 now store else store)
      in if autoComment \<and> length needsReview > 0
         then commentOnPRs needsReview needsReviewTemplate 7 now store1 else store1)"

text \<open>
  The login names that the API returns contain neither a blank nor a \<open>$\<close>.
\<close>

definition login_ok :: "string \<Rightarrow> bool" where
  "login_ok login = (CHR '' '' \<notin> set login \<and> CHR ''$'' \<notin> set login)"

definition logins_ok :: "pull_request \<Rightarrow> bool" where
  "logins_ok p =
     (login_ok (author p)
      \<and> list_all login_ok (case assignees p of Some as \<Rightarrow> as | None \<Rightarrow> [])
      \<and> list_all login_ok (case requested_reviewers p of Some rs \<Rightarrow> rs | None \<Rightarrow> []))"

section \<open>Evaluation, and the tests of the repository\<close>

lemmas mp_eval = matchPattern_def startsWith_def endsWith_def suffix_to_prefix

lemmas re_eval = regexPattern_def RegExp_def pstep_def push_item_def push_assert_def quantify_def
  re_test_def close_frame_def seq_of_def

lemmas parse_eval = parseCodeowners_def parse_line_def trim_def is_space_def replace_s_def startsWith_def

lemma pattern_matching_tests:
  "matchPattern ''any/file.js'' ''*'' = Inr True"
  "matchPattern ''README.md'' ''README.md'' = Inr True"
  "matchPattern ''README.md'' ''package.json'' = Inr False"
  "matchPattern ''src/components/Button.tsx'' ''*.tsx'' = Inr True"
  "matchPattern ''README.md'' ''*.js'' = Inr False"
  "matchPattern ''src/components/Button.tsx'' ''src/'' = Inr True"
  "matchPattern ''lib/utils.js'' ''src/'' = Inr False"
  "matchPattern ''src/app.js'' ''src'' = Inr True"
  "matchPattern ''/src/app.js'' ''/src/'' = Inr True"
  "matchPattern ''.github/workflows/ci.yml'' ''.github/'' = Inr True"
  by (simp_all add: mp_eval)

lemma glob_tests:
  "matchPattern ''file.test.js'' ''**/*.test.js'' = Inr True"
  "matchPattern ''src/app.js'' ''**/*.test.js'' = Inr False"
  "matchPattern ''src/components/Button.tsx'' ''src/**/*.tsx'' = Inr True"
  "matchPattern ''src/Button.tsx'' ''src/**/*.tsx'' = Inr True"
  "matchPattern ''lib/Button.tsx'' ''src/**/*.tsx'' = Inr False"
  by code_simp+

text \<open>
  The test that the repository keeps commented out: \<open>**/\<close> does not reach below one
  directory, since the last replacement also rewrites the \<open>*\<close> that the earlier ones
  wrote.
\<close>

lemma glob_depth_two: "matchPattern ''src/deep/nested/file.test.js'' ''**/*.test.js'' = Inr False"
  by code_simp

lemma parser_tests:
  "parseCodeowners (''*.js    @alice @bob'' @ [CHR 0x0A] @ ''*.md @org/docs'')
     = [\<lparr>pattern = ''*.js'', owners = [''alice'', ''bob'']\<rparr>]"
  "parseCodeowners ''*.js    @org/team @alice @bob''
     = [\<lparr>pattern = ''*.js'', owners = [''alice'', ''bob'']\<rparr>]"
  "parseCodeowners ''*.js    @org/frontend-team'' = []"
  by (simp_all add: parse_eval)

section \<open>The rounds of a repetition\<close>

text \<open>
  A match that starts inside the input ends inside it, and \<open>length s\<close> rounds of a
  repetition reach every position that any number of rounds reaches.
\<close>

lemma reach_range:
  assumes "\<forall>j. i \<le> j \<and> j \<le> b \<longrightarrow> (\<forall>k\<in>set (f j). k \<le> b)"
  shows "i \<le> b \<Longrightarrow> k \<in> set (reach f n i) \<Longrightarrow> i \<le> k \<and> k \<le> b"
  using assms
proof (induction n arbitrary: i)
  case 0
  then show ?case by simp
next
  case (Suc n)
  from Suc.prems(2) consider "k = i"
    | j where "j \<in> set (f i)" "i < j" "k \<in> set (reach f n j)"
    by auto
  then show ?case
  proof cases
    case 1
    then show ?thesis using Suc.prems(1) by simp
  next
    case 2
    have jb: "j \<le> b" using Suc.prems(1,3) 2(1) by blast
    have "\<forall>j'. j \<le> j' \<and> j' \<le> b \<longrightarrow> (\<forall>k\<in>set (f j'). k \<le> b)"
      using Suc.prems(3) 2(2) by (meson less_imp_le order_trans)
    from Suc.IH [OF jb 2(3) this] 2(2) show ?thesis by simp
  qed
qed

lemma ends_range:
  "i \<le> length s \<Longrightarrow> k \<in> set (ends r s i) \<Longrightarrow> i \<le> k \<and> k \<le> length s"
proof (induction r arbitrary: i k)
  case (Seq a b)
  from Seq.prems(2) obtain j where j: "j \<in> set (ends a s i)" "k \<in> set (ends b s j)" by auto
  from Seq.IH(1) [OF Seq.prems(1) j(1)] have ij: "i \<le> j" "j \<le> length s" by simp_all
  from Seq.IH(2) [OF ij(2) j(2)] ij(1) show ?case by simp
next
  case (Alt a b)
  from Alt.prems(2) have "k \<in> set (ends a s i) \<or> k \<in> set (ends b s i)" by simp
  then show ?case
  proof
    assume "k \<in> set (ends a s i)"
    then show ?thesis by (rule Alt.IH(1) [OF Alt.prems(1)])
  next
    assume "k \<in> set (ends b s i)"
    then show ?thesis by (rule Alt.IH(2) [OF Alt.prems(1)])
  qed
next
  case (Star a)
  have b: "\<forall>j. i \<le> j \<and> j \<le> length s \<longrightarrow> (\<forall>k\<in>set (ends a s j). k \<le> length s)"
  proof (intro allI impI ballI)
    fix j k' assume "i \<le> j \<and> j \<le> length s" "k' \<in> set (ends a s j)"
    then show "k' \<le> length s" using Star.IH [of j k'] by simp
  qed
  have "k \<in> set (reach (ends a s) (length s) i)" using Star.prems(2) by simp
  from reach_range [OF b Star.prems(1) this] show ?case .
next
  case (Plus a)
  from Plus.prems(2) obtain j where
    j: "j \<in> set (ends a s i)" "k \<in> set (reach (ends a s) (length s) j)" by auto
  from Plus.IH [OF Plus.prems(1) j(1)] have ij: "i \<le> j" "j \<le> length s" by simp_all
  have b: "\<forall>j'. j \<le> j' \<and> j' \<le> length s \<longrightarrow> (\<forall>k\<in>set (ends a s j'). k \<le> length s)"
  proof (intro allI impI ballI)
    fix j' k' assume "j \<le> j' \<and> j' \<le> length s" "k' \<in> set (ends a s j')"
    then show "k' \<le> length s" using Plus.IH [of j' k'] by simp
  qed
  from reach_range [OF b ij(2) j(2)] ij(1) show ?case by simp
next
  case (Opt a)
  from Opt.prems(2) have "k = i \<or> k \<in> set (ends a s i)" by simp
  then show ?case
  proof
    assume "k = i"
    then show ?thesis using Opt.prems(1) by simp
  next
    assume "k \<in> set (ends a s i)"
    then show ?thesis by (rule Opt.IH [OF Opt.prems(1)])
  qed
next
  case Eps
  then show ?case by simp
next
  case (Chr c)
  then show ?case by (simp split: if_splits)
next
  case Dot
  then show ?case by (simp split: if_splits)
next
  case (Cls neg cs)
  then show ?case by (simp split: if_splits)
next
  case Bol
  then show ?case by (simp split: if_splits)
next
  case Eol
  then show ?case by (simp split: if_splits)
qed

lemma reach_fuel:
  assumes "\<forall>j\<le>b. \<forall>k\<in>set (f j). k \<le> b"
  shows "i \<le> b \<Longrightarrow> b - i \<le> n \<Longrightarrow> set (reach f (Suc n) i) = set (reach f n i)"
proof (induction n arbitrary: i)
  case 0
  then have "i = b" by simp
  have "\<not> i < j" if "j \<in> set (f i)" for j
    using assms that \<open>i = b\<close> by fastforce
  then have "filter (\<lambda>j. i < j) (f i) = []"
    by (simp add: filter_empty_conv)
  then show ?case by simp
next
  case (Suc n)
  have eq: "set (reach f (Suc n) j) = set (reach f n j)" if "j \<in> set (f i)" "i < j" for j
  proof -
    have "j \<le> b" using assms Suc.prems(1) that(1) by blast
    moreover have "b - j \<le> n" using Suc.prems(2) that(2) by arith
    ultimately show ?thesis by (rule Suc.IH)
  qed
  have "set (reach f (Suc (Suc n)) i)
      = insert i (\<Union>j\<in>set (filter (\<lambda>j. i < j) (f i)). set (reach f (Suc n) j))"
    by (simp only: reach.simps set_simps set_concat set_map image_image) 
  also have "\<dots> = insert i (\<Union>j\<in>set (filter (\<lambda>j. i < j) (f i)). set (reach f n j))"
    using eq by auto
  also have "\<dots> = set (reach f (Suc n) i)"
    by (simp only: reach.simps set_simps set_concat set_map image_image) 
  finally show ?case .
qed

lemma repetition_rounds:
  assumes "i \<le> length s" and "length s \<le> n"
  shows "set (reach (ends a s) n i) = set (reach (ends a s) (length s) i)"
  using assms(2)
proof (induction n)
  case 0
  then show ?case by simp
next
  case (Suc n)
  show ?case
  proof (cases "length s \<le> n")
    case True
    have b: "\<forall>j\<le>length s. \<forall>k\<in>set (ends a s j). k \<le> length s"
      using ends_range by blast
    have "length s - i \<le> n" using True by simp
    from reach_fuel [OF b assms(1) this] Suc.IH [OF True] show ?thesis by simp
  next
    case False
    with Suc.prems have "Suc n = length s" by simp
    then show ?thesis by simp
  qed
qed

section \<open>Properties of the owner resolver\<close>

lemma matchFileToOwners_loop_ok:
  "\<forall>r\<in>set rs. \<exists>b. matchPattern f (pattern r) = Inr b \<Longrightarrow>
   matchFileToOwners_loop f rs acc =
     Inr (if filter (\<lambda>r. matchPattern f (pattern r) = Inr True) rs = [] then acc
          else owners (last (filter (\<lambda>r. matchPattern f (pattern r) = Inr True) rs)))"
proof (induction rs arbitrary: acc)
  case Nil
  then show ?case by simp
next
  case (Cons r rs)
  from Cons.prems obtain b where b: "matchPattern f (pattern r) = Inr b" by auto
  from Cons.prems have rest: "\<forall>r\<in>set rs. \<exists>b. matchPattern f (pattern r) = Inr b" by simp
  show ?case
    using Cons.IH [OF rest] b by (cases b) simp_all
qed

lemma matchFileToOwners_loop_raises:
  "\<forall>x\<in>set pre. \<exists>b. matchPattern f (pattern x) = Inr b \<Longrightarrow>
   matchPattern f (pattern r) = Inl e \<Longrightarrow>
   matchFileToOwners_loop f (pre @ r # post) acc = Inl e"
proof (induction pre arbitrary: acc)
  case Nil
  then show ?case by simp
next
  case (Cons x pre)
  from Cons.prems(1) obtain b where b: "matchPattern f (pattern x) = Inr b" by auto
  from Cons.prems(1) have "\<forall>x\<in>set pre. \<exists>b. matchPattern f (pattern x) = Inr b" by simp
  from Cons.IH [OF this Cons.prems(2)] b show ?case by simp
qed

text \<open>
  What holds of the resolver. When the matcher answers for every rule of the rule set,
  the resolver returns the owners of the last rule, in declaration order, whose pattern
  matches the path, whatever earlier rules matched, and the empty list when no rule
  matches. When the matcher fails on some rule, the resolver fails with the error of
  the first such rule and returns nothing.
\<close>

lemma matchFileToOwners_last_match:
  "((\<forall>r\<in>set codeowners. \<exists>b. matchPattern filename (pattern r) = Inr b) \<longrightarrow>
      matchFileToOwners filename codeowners =
        Inr (if filter (\<lambda>r. matchPattern filename (pattern r) = Inr True) codeowners = [] then []
             else owners (last (filter (\<lambda>r. matchPattern filename (pattern r) = Inr True)
                                  codeowners))))
   \<and> (\<forall>pre r post e.
         codeowners = pre @ r # post
         \<and> (\<forall>x\<in>set pre. \<exists>b. matchPattern filename (pattern x) = Inr b)
         \<and> matchPattern filename (pattern r) = Inl e
       \<longrightarrow> matchFileToOwners filename codeowners = Inl e)"
  unfolding matchFileToOwners_def
  using matchFileToOwners_loop_ok [of codeowners filename "[]"]
    matchFileToOwners_loop_raises [of _ filename _ _ _ "[]"]
  by blast

lemma matchFileToOwners_last_match_example:
  "matchFileToOwners ''src/critical.js''
     [\<lparr>pattern = ''*'', owners = [''default-owner'']\<rparr>,
      \<lparr>pattern = ''*.js'', owners = [''js-team'']\<rparr>,
      \<lparr>pattern = ''src/'', owners = [''src-owner'']\<rparr>,
      \<lparr>pattern = ''src/critical.js'', owners = [''tech-lead'']\<rparr>] = Inr [''tech-lead'']"
  using matchFileToOwners_last_match [of
     "[\<lparr>pattern = ''*'', owners = [''default-owner'']\<rparr>,
      \<lparr>pattern = ''*.js'', owners = [''js-team'']\<rparr>,
      \<lparr>pattern = ''src/'', owners = [''src-owner'']\<rparr>,
      \<lparr>pattern = ''src/critical.js'', owners = [''tech-lead'']\<rparr>]" "''src/critical.js''"]
  by (auto simp: mp_eval)

text \<open>
  C1 (last match wins, for every rule set). The resolver does not return the owners of
  the last matching rule on every rule set: on the rules \<open>*.js\<close>, \<open>a.js\<close> and
  \<open>(*\<close>, as the parser reads them from three declaration lines, the first two match
  the path \<open>a.js\<close>, and the resolver throws on the third instead of returning the
  owners of \<open>a.js\<close>.
\<close>

theorem matchFileToOwners_throws:
  "matchPattern ''a.js'' ''*.js'' = Inr True
   \<and> matchPattern ''a.js'' ''a.js'' = Inr True
   \<and> matchFileToOwners ''a.js''
         (parseCodeowners (''*.js @x'' @ [CHR 0x0A] @ ''a.js @y'' @ [CHR 0x0A] @ ''(* @z''))
       = Inl SyntaxError"
  by (simp add: parse_eval matchFileToOwners_def mp_eval re_eval)

section \<open>Properties of the pattern matcher\<close>

text \<open>
  C3 (leading slash), as amended. For a path and a pattern that do not begin with a slash
  themselves, and a pattern other than the match-all \<open>*\<close>, putting one slash in front of
  the path, of the pattern or of both leaves the outcome of the matcher unchanged, a
  thrown error included.
\<close>

theorem matchPattern_leading_slash:
  assumes "\<not> startsWith p ''/''" and "\<not> startsWith q ''/''" and "q \<noteq> ''*''"
  shows "matchPattern (CHR ''/'' # p) q = matchPattern p q
       \<and> matchPattern p (CHR ''/'' # q) = matchPattern p q
       \<and> matchPattern (CHR ''/'' # p) (CHR ''/'' # q) = matchPattern p q"
  using assms unfolding matchPattern_def by (simp add: startsWith_def)

theorem matchPattern_leading_slash_witness:
  "matchPattern ''/src/app.js'' ''src/'' = Inr True
   \<and> matchPattern ''src/app.js'' ''/src/'' = Inr True
   \<and> matchPattern ''/src/app.js'' ''/src/'' = Inr True"
  using matchPattern_leading_slash [of "''src/app.js''" "''src/''"]
  by (simp add: mp_eval)

text \<open>
  The claim as stated fails: the match-all test comes before the slashes are removed, so
  \<open>*\<close> matches \<open>a/b\<close> and \<open>/*\<close> does not; and only one slash is removed, so a
  second slash in front of \<open>/a\<close> changes the outcome against the pattern \<open>a\<close>.
\<close>

theorem matchPattern_leading_slash_counterexample:
  "matchPattern ''a/b'' ''*'' \<noteq> matchPattern ''a/b'' (CHR ''/'' # ''*'')
   \<and> matchPattern ''/a'' ''a'' \<noteq> matchPattern (CHR ''/'' # ''/a'') ''a''"
  by (simp add: mp_eval re_eval)

text \<open>
  C4 (plain patterns). The characters with a meaning of their own in a pattern are
  \<open>*\<close>, \<open>.\<close> and the slash that ends a directory pattern. For a pattern \<open>q\<close> without
  them, the matcher is true exactly when the path equals \<open>q\<close> or starts with \<open>q\<close>
  followed by a slash, and the result is the same with and without a slash in front of
  either argument.
\<close>

theorem matchPattern_plain:
  assumes "CHR ''*'' \<notin> set q" and "CHR ''.'' \<notin> set q" and "\<not> endsWith q ''/''"
    and "\<not> startsWith q ''/''" and "\<not> startsWith p ''/''"
    and "sp = [] \<or> sp = ''/''" and "sq = [] \<or> sq = ''/''"
  shows "matchPattern (sp @ p) (sq @ q) = Inr (p = q \<or> startsWith p (q @ ''/''))"
proof -
  have q: "q \<noteq> ''*''" "sq @ q \<noteq> ''*''" using assms(1,7) by auto
  have "\<not> startsWith q ''*.''" using assms(1) by (cases q) (auto simp: startsWith_def)
  then show ?thesis
    using assms q unfolding matchPattern_def by (auto simp: startsWith_def)
qed

theorem matchPattern_plain_witness:
  "matchPattern ''/src/app.js'' ''src'' = Inr True
   \<and> matchPattern ''lib/app.js'' ''/src'' = Inr False"
  using matchPattern_plain [of "''src''" "''src/app.js''" "''/''" "[]"]
    matchPattern_plain [of "''src''" "''lib/app.js''" "[]" "''/''"]
  by (simp add: mp_eval)

section \<open>Properties of the changeset aggregator\<close>

lemma set_foldl_set_add: "set (foldl set_add acc ms) = set acc \<union> set ms"
  by (induction ms arbitrary: acc) (auto simp: set_add_def)

lemma distinct_foldl_set_add: "distinct acc \<Longrightarrow> distinct (foldl set_add acc ms)"
  by (induction ms arbitrary: acc) (auto simp: set_add_def)

lemma getPRCodeowners_loop_ok:
  "\<forall>f\<in>set files. \<exists>m. matchFileToOwners f rs = Inr m \<Longrightarrow> distinct acc \<Longrightarrow>
   \<exists>os. getPRCodeowners_loop files rs acc = Inr os \<and> distinct os
      \<and> set os = set acc \<union> (\<Union>f\<in>set files. {x. \<exists>m. matchFileToOwners f rs = Inr m \<and> x \<in> set m})"
proof (induction files arbitrary: acc)
  case Nil
  then show ?case by simp
next
  case (Cons f files)
  from Cons.prems obtain m where m: "matchFileToOwners f rs = Inr m" by auto
  let ?acc = "if length m > 0 then foldl set_add acc m else acc"
  have d: "distinct ?acc" using Cons.prems(2) by (simp add: distinct_foldl_set_add)
  have s: "set ?acc = set acc \<union> set m" by (auto simp: set_foldl_set_add)
  from Cons.prems have rest: "\<forall>f\<in>set files. \<exists>m. matchFileToOwners f rs = Inr m" by simp
  from Cons.IH [OF rest d] obtain os where os:
    "getPRCodeowners_loop files rs ?acc = Inr os" "distinct os"
    "set os = set ?acc \<union> (\<Union>f\<in>set files. {x. \<exists>m. matchFileToOwners f rs = Inr m \<and> x \<in> set m})"
    by blast
  have "getPRCodeowners_loop (f # files) rs acc = Inr os" using m os(1) by simp
  moreover have "set os = set acc \<union> (\<Union>f\<in>set (f # files). {x. \<exists>m. matchFileToOwners f rs = Inr m \<and> x \<in> set m})"
    using os(3) s m by auto
  ultimately show ?case using os(2) by blast
qed

lemma matchFileToOwners_no_match:
  assumes "\<forall>r\<in>set rs. matchPattern f (pattern r) = Inr False"
  shows "matchFileToOwners f rs = Inr []"
proof -
  have "\<forall>r\<in>set rs. \<exists>b. matchPattern f (pattern r) = Inr b" using assms by blast
  moreover have "filter (\<lambda>r. matchPattern f (pattern r) = Inr True) rs = []"
    using assms by (simp add: filter_empty_conv)
  ultimately show ?thesis
    unfolding matchFileToOwners_def using matchFileToOwners_loop_ok [of rs f "[]"] by simp
qed

text \<open>
  What holds of the aggregator. When the resolver returns for every changed file, the
  aggregator returns a list without duplicates whose elements are exactly the owners
  that the resolver gives for some file; every permutation of the file list gives the
  same set; the result is empty for an empty file list and when no file matches any
  rule.
\<close>

lemma getPRCodeowners_union:
  assumes "\<forall>f\<in>set files. \<exists>m. matchFileToOwners f codeowners = Inr m"
  shows "\<exists>os. getPRCodeowners files codeowners = Inr os
     \<and> distinct os
     \<and> set os = (\<Union>f\<in>set files. {x. \<exists>m. matchFileToOwners f codeowners = Inr m \<and> x \<in> set m})
     \<and> (\<forall>files'. mset files' = mset files \<longrightarrow>
           (\<exists>os'. getPRCodeowners files' codeowners = Inr os' \<and> set os' = set os))
     \<and> (files = [] \<longrightarrow> os = [])
     \<and> ((\<forall>f\<in>set files. \<forall>r\<in>set codeowners. matchPattern f (pattern r) = Inr False) \<longrightarrow> os = [])"
proof -
  let ?U = "\<lambda>fs. (\<Union>f\<in>set fs. {x. \<exists>m. matchFileToOwners f codeowners = Inr m \<and> x \<in> set m})"
  from getPRCodeowners_loop_ok [OF assms, of "[]"] obtain os where os:
    "getPRCodeowners files codeowners = Inr os" "distinct os" "set os = ?U files"
    unfolding getPRCodeowners_def by auto
  have perm: "\<exists>os'. getPRCodeowners files' codeowners = Inr os' \<and> set os' = set os"
    if "mset files' = mset files" for files'
  proof -
    have eq: "set files' = set files" using that by (rule mset_eq_setD)
    then have "\<forall>f\<in>set files'. \<exists>m. matchFileToOwners f codeowners = Inr m" using assms by simp
    from getPRCodeowners_loop_ok [OF this, of "[]"] obtain os' where
      "getPRCodeowners files' codeowners = Inr os'" "set os' = ?U files'"
      unfolding getPRCodeowners_def by auto
    then show ?thesis using os(3) eq by auto
  qed
  have empty: "os = []" if "files = []"
    using os(1) that by (simp add: getPRCodeowners_def)
  have nomatch: "os = []"
    if "\<forall>f\<in>set files. \<forall>r\<in>set codeowners. matchPattern f (pattern r) = Inr False"
  proof -
    have "\<forall>f\<in>set files. matchFileToOwners f codeowners = Inr []"
      using that by (simp add: matchFileToOwners_no_match)
    then have "?U files = {}" by auto
    then have "set os = {}" using os(3) by simp
    then show ?thesis by simp
  qed
  show ?thesis using os perm empty nomatch by blast
qed

lemma getPRCodeowners_union_example:
  "\<exists>os. getPRCodeowners [''README.md'', ''src/app.js'']
          [\<lparr>pattern = ''*'', owners = [''default'']\<rparr>,
           \<lparr>pattern = ''*.js'', owners = [''js-team'']\<rparr>,
           \<lparr>pattern = ''src/'', owners = [''src-owner'']\<rparr>] = Inr os
       \<and> distinct os \<and> set os = {''default'', ''src-owner''}"
proof -
  let ?R = "[\<lparr>pattern = ''*'', owners = [''default'']\<rparr>,
           \<lparr>pattern = ''*.js'', owners = [''js-team'']\<rparr>,
           \<lparr>pattern = ''src/'', owners = [''src-owner'']\<rparr>]"
  have a: "matchFileToOwners ''README.md'' ?R = Inr [''default'']"
    by (simp add: matchFileToOwners_def mp_eval)
  have b: "matchFileToOwners ''src/app.js'' ?R = Inr [''src-owner'']"
    by (simp add: matchFileToOwners_def mp_eval)
  have h: "\<forall>f\<in>set [''README.md'', ''src/app.js'']. \<exists>m. matchFileToOwners f ?R = Inr m"
    using a b by simp
  from getPRCodeowners_union [OF h] obtain os where
    "getPRCodeowners [''README.md'', ''src/app.js''] ?R = Inr os" "distinct os"
    "set os = (\<Union>f\<in>set [''README.md'', ''src/app.js'']. {x. \<exists>m. matchFileToOwners f ?R = Inr m \<and> x \<in> set m})"
    by blast
  then show ?thesis using a b by auto
qed

text \<open>
  C6 (aggregation, for every rule set and file list). The aggregator does not return the
  union on every input: with the rules \<open>*.js\<close> and \<open>(*\<close> it throws on the files
  \<open>a.js\<close> and \<open>b.md\<close>, and it throws on \<open>b.md\<close> alone, which no rule matches,
  instead of returning the empty set.
\<close>

theorem getPRCodeowners_throws:
  "getPRCodeowners [''a.js'', ''b.md'']
     [\<lparr>pattern = ''*.js'', owners = [''x'']\<rparr>, \<lparr>pattern = ''(*'', owners = [''z'']\<rparr>]
     = Inl SyntaxError
   \<and> matchPattern ''b.md'' ''*.js'' = Inr False
   \<and> getPRCodeowners [''b.md'']
     [\<lparr>pattern = ''*.js'', owners = [''x'']\<rparr>, \<lparr>pattern = ''(*'', owners = [''z'']\<rparr>]
     = Inl SyntaxError"
  by (simp add: getPRCodeowners_def matchFileToOwners_def mp_eval re_eval)

section \<open>Properties of the rule parser\<close>

lemma find_sub_Some: "find_sub n s = Some (b, a) \<Longrightarrow> s = b @ n @ a"
proof (induction s arbitrary: b)
  case Nil
  then show ?case by (simp split: if_splits)
next
  case (Cons c cs)
  show ?case
  proof (cases "prefix n (c # cs)")
    case True
    then obtain r where r: "c # cs = n @ r" by (auto simp: prefix_def)
    from True Cons.prems have "b = []" "a = drop (length n) (c # cs)" by simp_all
    with r show ?thesis by simp
  next
    case False
    with Cons.prems obtain b' where "find_sub n cs = Some (b', a)" "b = c # b'"
      by (auto split: option.splits)
    with Cons.IH show ?thesis by simp
  qed
qed

lemma slash_replace_at: "CHR ''/'' \<in> set (replace_s ''@'' [] t) \<longleftrightarrow> CHR ''/'' \<in> set t"
proof (cases "find_sub ''@'' t")
  case None
  then show ?thesis by (simp add: replace_s_def)
next
  case (Some ba)
  obtain b a where ba: "ba = (b, a)" by (cases ba)
  with Some have "t = b @ ''@'' @ a" using find_sub_Some [of "''@''" t b a] by simp
  then show ?thesis using Some ba by (auto simp: replace_s_def)
qed

lemma parse_line_append: "parse_line rules line = rules @ parse_line [] line"
  by (simp add: parse_line_def Let_def)

lemma foldl_parse_line: "foldl parse_line rules ls = rules @ concat (map (parse_line []) ls)"
proof (induction ls arbitrary: rules)
  case Nil
  then show ?case by simp
next
  case (Cons l ls)
  show ?case using Cons.IH [of "parse_line rules l"] parse_line_append [of rules l] by simp
qed

lemma parse_line_owners: "r \<in> set (parse_line [] line) \<Longrightarrow> owners r \<noteq> []"
  by (auto simp: parse_line_def Let_def split: if_splits)

text \<open>
  C7 (the parser is total and drops team-only lines). The parser is a total function:
  no step of it can throw. Every line contributes its own rules, independently of the
  others; a line that is empty after trimming, a comment, has fewer than two tokens, or
  whose owner tokens all contain a slash contributes none; and every rule of the result
  has at least one owner.
\<close>

theorem parseCodeowners_total:
  "parseCodeowners content = concat (map (parse_line []) (split_on CHR 0x0A content))
   \<and> (\<forall>r\<in>set (parseCodeowners content). owners r \<noteq> [])
   \<and> (\<forall>line. trim line = [] \<or> startsWith (trim line) ''#''
         \<or> length (split_ws (trim line)) < 2
         \<or> (\<forall>t\<in>set (drop 1 (split_ws (trim line))). CHR ''/'' \<in> set t)
       \<longrightarrow> parse_line [] line = [])"
proof -
  have a: "parseCodeowners content = concat (map (parse_line []) (split_on CHR 0x0A content))"
    by (simp add: parseCodeowners_def foldl_parse_line)
  have b: "\<forall>r\<in>set (parseCodeowners content). owners r \<noteq> []"
    unfolding a using parse_line_owners by auto
  have c: "parse_line [] line = []"
    if "trim line = [] \<or> startsWith (trim line) ''#'' \<or> length (split_ws (trim line)) < 2
         \<or> (\<forall>t\<in>set (drop 1 (split_ws (trim line))). CHR ''/'' \<in> set t)" for line
  proof -
    have "filter (\<lambda>owner. CHR ''/'' \<notin> set owner)
            (map (\<lambda>owner. replace_s ''@'' [] owner) (drop 1 (split_ws (trim line)))) = []"
      if "\<forall>t\<in>set (drop 1 (split_ws (trim line))). CHR ''/'' \<in> set t"
      using that by (simp add: filter_empty_conv slash_replace_at)
    then show ?thesis using that by (auto simp: parse_line_def Let_def)
  qed
  show ?thesis using a b c by blast
qed

theorem parseCodeowners_total_witness:
  "parseCodeowners (''# owners'' @ [CHR 0x0A] @ ''lonely'' @ [CHR 0x0A] @ ''*.md @org/docs'' @ [CHR 0x0A]) = []"
  using parseCodeowners_total [of "''# owners'' @ [CHR 0x0A] @ ''lonely'' @ [CHR 0x0A] @ ''*.md @org/docs'' @ [CHR 0x0A]"]
  by (simp add: parse_eval)

text \<open>
  C8 (owner tokens lose a leading \<open>@\<close> only). The parser removes the first \<open>@\<close> of a
  token wherever it stands: the token \<open>a@b\<close> is emitted as \<open>ab\<close>, and an e-mail owner
  loses its \<open>@\<close>.
\<close>

theorem parseCodeowners_at_anywhere:
  "parseCodeowners ''docs/ alice@example.com'' = [\<lparr>pattern = ''docs/'', owners = [''aliceexample.com'']\<rparr>]
   \<and> parseCodeowners ''*.js a@b'' = [\<lparr>pattern = ''*.js'', owners = [''ab'']\<rparr>]"
  by (simp add: parse_eval)

text \<open>
  C10 (inline comments are owners). On a declaration line whose tokens are a pattern,
  some tokens, the token \<open>#\<close> and further tokens, the parser emits one rule whose
  owners are all the tokens after the pattern, each with its first \<open>@\<close> removed, that
  contain no slash: \<open>#\<close> is among them, and so is every slash-free token after it.
\<close>

theorem parse_line_inline_comment:
  assumes "trim line \<noteq> []" and "\<not> startsWith (trim line) ''#''"
    and "split_ws (trim line) = p # ts1 @ ''#'' # ts2"
  shows "\<exists>os. parse_line rules line = rules @ [\<lparr>pattern = p, owners = os\<rparr>]
           \<and> os = filter (\<lambda>owner. CHR ''/'' \<notin> set owner)
                    (map (\<lambda>owner. replace_s ''@'' [] owner) (ts1 @ ''#'' # ts2))
           \<and> ''#'' \<in> set os
           \<and> (\<forall>t\<in>set ts2. CHR ''/'' \<notin> set t \<longrightarrow> replace_s ''@'' [] t \<in> set os)"
proof -
  have h: "replace_s ''@'' [] ''#'' = ''#''" by (simp add: replace_s_def)
  have "''#'' \<in> set (filter (\<lambda>owner. CHR ''/'' \<notin> set owner)
                    (map (\<lambda>owner. replace_s ''@'' [] owner) (ts1 @ ''#'' # ts2)))"
    using h by simp
  then show ?thesis
    using assms by (auto simp: parse_line_def Let_def slash_replace_at)
qed

theorem parse_line_inline_comment_witness:
  "parse_line [] ''*.js @alice # js @owner'' = [\<lparr>pattern = ''*.js'', owners = [''alice'', ''#'', ''js'', ''owner'']\<rparr>]"
  using parse_line_inline_comment [of "''*.js @alice # js @owner''" "''*.js''" "[''@alice'']" "[''js'', ''@owner'']" "[]"]
  by (simp add: parse_eval)

section \<open>Properties of the comment de-duplication\<close>

lemma find_sub_first:
  "n \<noteq> [] \<Longrightarrow> hd n \<notin> set b \<Longrightarrow> find_sub n (b @ n @ a) = Some (b, a)"
proof (induction b)
  case Nil
  then obtain c cs where c: "n @ a = c # cs" by (cases n) auto
  have "prefix n (c # cs)" unfolding c [symmetric] by simp
  then have "find_sub n (c # cs) = Some ([], drop (length n) (c # cs))" by simp
  then show ?case unfolding c [symmetric] by simp
next
  case (Cons x b)
  then have "\<not> prefix n (x # b @ n @ a)" by (cases n) auto
  with Cons show ?case by simp
qed

lemma get_substitution_plain:
  "CHR ''$'' \<notin> set r \<Longrightarrow> get_substitution m b a r = r"
  by (induction m b a r rule: get_substitution.induct) auto

lemma replace_s_first:
  assumes "n \<noteq> []" and "hd n \<notin> set b" and "CHR ''$'' \<notin> set r"
  shows "replace_s n r (b @ n @ a) = b @ r @ a"
  using assms by (simp add: replace_s_def find_sub_first get_substitution_plain)

lemma prefix_single: "prefix [c] ys \<longleftrightarrow> ys \<noteq> [] \<and> hd ys = c"
  by (cases ys) auto

lemma suffix_single: "suffix [c] xs \<longleftrightarrow> xs \<noteq> [] \<and> last xs = c"
  by (simp add: suffix_to_prefix prefix_single hd_rev)

lemma two_split:
  assumes "[c, d] = xs1 @ xs2" and "xs1 \<noteq> []" and "xs2 \<noteq> []"
  shows "xs1 = [c] \<and> xs2 = [d]"
proof (cases xs1)
  case Nil
  with assms show ?thesis by simp
next
  case (Cons x t)
  with assms(1) have "c = x" "[d] = t @ xs2" by simp_all
  with assms(3) have "t = []" by (cases t) simp_all
  with \<open>[d] = t @ xs2\<close> \<open>c = x\<close> Cons show ?thesis by simp
qed

lemma pair_sublist_append:
  "sublist [c, d] (xs @ ys) \<longleftrightarrow>
     sublist [c, d] xs \<or> sublist [c, d] ys
     \<or> (xs \<noteq> [] \<and> last xs = c \<and> ys \<noteq> [] \<and> hd ys = d)" (is "?L \<longleftrightarrow> ?R")
proof
  assume ?L
  then consider "sublist [c, d] xs" | "sublist [c, d] ys"
    | xs1 xs2 where "[c, d] = xs1 @ xs2" "suffix xs1 xs" "prefix xs2 ys"
    unfolding sublist_append by blast
  then show ?R
  proof cases
    case 3
    show ?thesis
    proof (cases "xs1 = [] \<or> xs2 = []")
      case True
      then show ?thesis
      proof
        assume "xs1 = []"
        with 3 have "prefix [c, d] ys" by simp
        then show ?thesis by (simp add: prefix_imp_sublist)
      next
        assume "xs2 = []"
        with 3 have "suffix [c, d] xs" by simp
        then show ?thesis by (simp add: suffix_imp_sublist)
      qed
    next
      case False
      then have "xs1 = [c] \<and> xs2 = [d]" using two_split [OF 3(1)] by simp
      with 3 show ?thesis by (simp add: prefix_single suffix_single)
    qed
  qed simp_all
next
  assume ?R
  then consider "sublist [c, d] xs" | "sublist [c, d] ys"
    | "suffix [c] xs" "prefix [d] ys"
    by (auto simp: prefix_single suffix_single)
  then show ?L
  proof cases
    case 3
    have "[c, d] = [c] @ [d]" by simp
    with 3 show ?thesis unfolding sublist_append by blast
  qed (simp_all add: sublist_append)
qed

lemma sp_i_no_space: "CHR '' '' \<notin> set l \<Longrightarrow> \<not> sublist '' i'' l"
  using set_mono_sublist [of "'' i''" l] by auto

lemma join_Cons: "xs \<noteq> [] \<Longrightarrow> join sep (x # xs) = x @ sep @ join sep xs"
  by (cases xs) simp_all

lemma piece_join:
  assumes "h \<noteq> CHR ''i''"
    and "\<not> sublist '' i'' X \<and> X \<noteq> [] \<and> hd X = h \<and> last X \<noteq> CHR '' '' \<and> CHR ''$'' \<notin> set X"
    and "\<not> sublist '' i'' Y \<and> Y \<noteq> [] \<and> hd Y = h \<and> last Y \<noteq> CHR '' '' \<and> CHR ''$'' \<notin> set Y"
  shows "\<not> sublist '' i'' (X @ '', '' @ Y) \<and> X @ '', '' @ Y \<noteq> [] \<and> hd (X @ '', '' @ Y) = h
       \<and> last (X @ '', '' @ Y) \<noteq> CHR '' '' \<and> CHR ''$'' \<notin> set (X @ '', '' @ Y)"
proof -
  have s: "\<not> sublist '' i'' '', ''" by (simp add: sublist_Cons_right)
  have "\<not> sublist '' i'' ('', '' @ Y)"
    using assms s pair_sublist_append [of "CHR '' ''" "CHR ''i''" "'', ''" Y] by simp
  then have "\<not> sublist '' i'' (X @ '', '' @ Y)"
    using assms pair_sublist_append [of "CHR '' ''" "CHR ''i''" X "'', '' @ Y"] by simp
  then show ?thesis using assms by simp
qed

lemma join_pieces:
  assumes "h \<noteq> CHR ''i''" and "ps \<noteq> []"
    and "\<forall>X\<in>set ps. \<not> sublist '' i'' X \<and> X \<noteq> [] \<and> hd X = h \<and> last X \<noteq> CHR '' '' \<and> CHR ''$'' \<notin> set X"
  shows "\<not> sublist '' i'' (join '', '' ps) \<and> join '', '' ps \<noteq> [] \<and> hd (join '', '' ps) = h
       \<and> last (join '', '' ps) \<noteq> CHR '' '' \<and> CHR ''$'' \<notin> set (join '', '' ps)"
  using assms(2,3)
proof (induction ps rule: list_nonempty_induct)
  case (single x)
  then show ?case by simp
next
  case (cons x xs)
  have x: "\<not> sublist '' i'' x \<and> x \<noteq> [] \<and> hd x = h \<and> last x \<noteq> CHR '' '' \<and> CHR ''$'' \<notin> set x"
    using cons.prems by simp
  have r: "\<not> sublist '' i'' (join '', '' xs) \<and> join '', '' xs \<noteq> [] \<and> hd (join '', '' xs) = h
       \<and> last (join '', '' xs) \<noteq> CHR '' '' \<and> CHR ''$'' \<notin> set (join '', '' xs)"
    using cons.IH cons.prems by simp
  show ?case
    unfolding join_Cons [OF cons.hyps] by (rule piece_join [OF assms(1) x r])
qed

lemma at_login:
  assumes "login_ok l"
  shows "\<not> sublist '' i'' (CHR ''@'' # l) \<and> CHR ''@'' # l \<noteq> [] \<and> hd (CHR ''@'' # l) = CHR ''@''
     \<and> last (CHR ''@'' # l) \<noteq> CHR '' '' \<and> CHR ''$'' \<notin> set (CHR ''@'' # l)"
proof -
  have "CHR '' '' \<notin> set (CHR ''@'' # l)" using assms by (simp add: login_ok_def)
  then have "\<not> sublist '' i'' (CHR ''@'' # l)" by (rule sp_i_no_space)
  moreover have "last (CHR ''@'' # l) \<noteq> CHR '' ''"
    using assms by (cases l rule: rev_cases) (auto simp: login_ok_def)
  ultimately show ?thesis using assms by (simp add: login_ok_def)
qed

lemma sp_at_login:
  assumes "login_ok l"
  shows "\<not> sublist '' i'' ('' @'' @ l) \<and> '' @'' @ l \<noteq> [] \<and> hd ('' @'' @ l) = CHR '' ''
     \<and> last ('' @'' @ l) \<noteq> CHR '' '' \<and> CHR ''$'' \<notin> set ('' @'' @ l)"
proof -
  have a: "\<not> sublist '' i'' (CHR ''@'' # l)" "last (CHR ''@'' # l) \<noteq> CHR '' ''"
    using at_login [OF assms] by simp_all
  have "\<not> sublist '' i'' ('' '' @ (CHR ''@'' # l))"
    unfolding pair_sublist_append using a by (simp add: sublist_Cons_right)
  then show ?thesis using a assms by (simp add: login_ok_def)
qed

lemma assignees_string_props:
  assumes "logins_ok p"
  shows "\<not> sublist '' i'' (assignees_string p) \<and> assignees_string p \<noteq> []
     \<and> hd (assignees_string p) = CHR ''@'' \<and> last (assignees_string p) \<noteq> CHR '' ''
     \<and> CHR ''$'' \<notin> set (assignees_string p)"
proof -
  define A1 where "A1 = (case assignees p of
        Some (a # as) \<Rightarrow> join '', '' (map (\<lambda>login. CHR ''@'' # login) (a # as))
      | _ \<Rightarrow> CHR ''@'' # author p)"
  define A2 where "A2 = (case requested_reviewers p of
          Some (r # rs) \<Rightarrow> join '', '' (map (\<lambda>login. '' @'' @ login) (r # rs))
        | _ \<Rightarrow> [])"
  have A: "assignees_string p = A1 @ A2" by (simp add: assignees_string_def A1_def A2_def)
  have p1: "\<not> sublist '' i'' A1 \<and> A1 \<noteq> [] \<and> hd A1 = CHR ''@'' \<and> last A1 \<noteq> CHR '' ''
      \<and> CHR ''$'' \<notin> set A1"
  proof (cases "\<exists>a as. assignees p = Some (a # as)")
    case True
    then obtain a as where a: "assignees p = Some (a # as)" by blast
    have "\<forall>l\<in>set (a # as). login_ok l"
      using assms a by (simp add: logins_ok_def list_all_iff)
    then have "\<forall>X\<in>set (map (\<lambda>login. CHR ''@'' # login) (a # as)).
       \<not> sublist '' i'' X \<and> X \<noteq> [] \<and> hd X = CHR ''@'' \<and> last X \<noteq> CHR '' '' \<and> CHR ''$'' \<notin> set X"
      using at_login by auto
    then have J: "\<not> sublist '' i'' (join '', '' (map (\<lambda>login. CHR ''@'' # login) (a # as)))
       \<and> join '', '' (map (\<lambda>login. CHR ''@'' # login) (a # as)) \<noteq> []
       \<and> hd (join '', '' (map (\<lambda>login. CHR ''@'' # login) (a # as))) = CHR ''@''
       \<and> last (join '', '' (map (\<lambda>login. CHR ''@'' # login) (a # as))) \<noteq> CHR '' ''
       \<and> CHR ''$'' \<notin> set (join '', '' (map (\<lambda>login. CHR ''@'' # login) (a # as)))"
      by (intro join_pieces) simp_all
    have eq: "A1 = join '', '' (map (\<lambda>login. CHR ''@'' # login) (a # as))"
      by (simp only: A1_def a option.case list.case)
    show ?thesis unfolding eq using J .
  next
    case False
    then have "A1 = CHR ''@'' # author p"
      by (auto simp: A1_def split: option.splits list.splits)
    moreover have "login_ok (author p)" using assms by (simp add: logins_ok_def)
    ultimately show ?thesis using at_login by simp
  qed
  have p2: "A2 = [] \<or> (\<not> sublist '' i'' A2 \<and> A2 \<noteq> [] \<and> hd A2 = CHR '' '' \<and> last A2 \<noteq> CHR '' ''
      \<and> CHR ''$'' \<notin> set A2)"
  proof (cases "\<exists>r rs. requested_reviewers p = Some (r # rs)")
    case True
    then obtain r rs where r: "requested_reviewers p = Some (r # rs)" by blast
    have "\<forall>l\<in>set (r # rs). login_ok l"
      using assms r by (simp add: logins_ok_def list_all_iff)
    then have "\<forall>X\<in>set (map (\<lambda>login. '' @'' @ login) (r # rs)).
       \<not> sublist '' i'' X \<and> X \<noteq> [] \<and> hd X = CHR '' '' \<and> last X \<noteq> CHR '' '' \<and> CHR ''$'' \<notin> set X"
      using sp_at_login by auto
    then have J: "\<not> sublist '' i'' (join '', '' (map (\<lambda>login. '' @'' @ login) (r # rs)))
       \<and> join '', '' (map (\<lambda>login. '' @'' @ login) (r # rs)) \<noteq> []
       \<and> hd (join '', '' (map (\<lambda>login. '' @'' @ login) (r # rs))) = CHR '' ''
       \<and> last (join '', '' (map (\<lambda>login. '' @'' @ login) (r # rs))) \<noteq> CHR '' ''
       \<and> CHR ''$'' \<notin> set (join '', '' (map (\<lambda>login. '' @'' @ login) (r # rs)))"
      by (intro join_pieces) simp_all
    have eq: "A2 = join '', '' (map (\<lambda>login. '' @'' @ login) (r # rs))"
      by (simp only: A2_def r option.case list.case)
    show ?thesis unfolding eq using J by (rule disjI2)
  next
    case False
    then have "A2 = []" by (auto simp: A2_def split: option.splits list.splits)
    then show ?thesis by simp
  qed
  from p2 show ?thesis
  proof
    assume "A2 = []"
    with p1 A show ?thesis by simp
  next
    assume q: "\<not> sublist '' i'' A2 \<and> A2 \<noteq> [] \<and> hd A2 = CHR '' '' \<and> last A2 \<noteq> CHR '' ''
      \<and> CHR ''$'' \<notin> set A2"
    have "\<not> sublist '' i'' (A1 @ A2)" unfolding pair_sublist_append using p1 q by simp
    with p1 q A show ?thesis by simp
  qed
qed

lemma show_nat_digits: "show_nat n \<noteq> [] \<and> set (show_nat n) \<subseteq> set ''0123456789''"
proof (induction n rule: show_nat.induct)
  case (1 n)
  have d: "''0123456789'' ! k \<in> set ''0123456789''" if "k < 10" for k
    using that by (intro nth_mem) simp
  show ?case
  proof (cases "n < 10")
    case True
    then show ?thesis using d [of n] by (subst (1 2) show_nat.simps) simp
  next
    case False
    have "n mod 10 < 10" by simp
    with False 1 d [of "n mod 10"] show ?thesis by (subst (1 2) show_nat.simps) simp
  qed
qed

lemma days_string_props:
  "days_string p \<noteq> [] \<and> hd (days_string p) \<noteq> CHR ''i'' \<and> CHR '' '' \<notin> set (days_string p)
   \<and> CHR ''$'' \<notin> set (days_string p) \<and> CHR ''{'' \<notin> set (days_string p)"
proof -
  have n: "show_nat n \<noteq> [] \<and> hd (show_nat n) \<noteq> CHR ''i'' \<and> CHR '' '' \<notin> set (show_nat n)
   \<and> CHR ''$'' \<notin> set (show_nat n) \<and> CHR ''{'' \<notin> set (show_nat n)" for n
  proof -
    have s: "show_nat n \<noteq> []" "set (show_nat n) \<subseteq> set ''0123456789''"
      using show_nat_digits by simp_all
    then have "hd (show_nat n) \<in> set ''0123456789''" using hd_in_set by blast
    then have "hd (show_nat n) \<noteq> CHR ''i''" by auto
    then show ?thesis using s by auto
  qed
  show ?thesis
    unfolding days_string_def using n by (simp split: option.splits)
qed

lemma comment_message_needs_review:
  assumes "logins_ok p"
  shows "comment_message needsReviewTemplate p =
     ([CHR 0xF0, CHR 0x9F, CHR 0x91, CHR 0x80] @ '' This PR has been open for '')
     @ days_string p @ '' days without any reviews. '' @ assignees_string p
     @ '' please take a look!''"
proof -
  let ?pre = "[CHR 0xF0, CHR 0x9F, CHR 0x91, CHR 0x80] @ '' This PR has been open for ''"
  let ?mid = "'' days without any reviews. ''"
  let ?post = "'' please take a look!''"
  have t: "needsReviewTemplate = ?pre @ ''{days}'' @ (?mid @ ''{assignees}'' @ ?post)"
    by (simp add: needsReviewTemplate_def)
  have d: "CHR ''$'' \<notin> set (days_string p)" "CHR ''{'' \<notin> set (days_string p)"
    using days_string_props by simp_all
  have a: "CHR ''$'' \<notin> set (assignees_string p)"
    using assignees_string_props [OF assms] by simp
  have 1: "replace_s ''{days}'' (days_string p) needsReviewTemplate
         = ?pre @ days_string p @ (?mid @ ''{assignees}'' @ ?post)"
    unfolding t by (rule replace_s_first) (simp_all add: d)
  have 2: "?pre @ days_string p @ (?mid @ ''{assignees}'' @ ?post)
         = (?pre @ days_string p @ ?mid) @ ''{assignees}'' @ ?post" by simp
  have 3: "replace_s ''{assignees}'' (assignees_string p)
            ((?pre @ days_string p @ ?mid) @ ''{assignees}'' @ ?post)
         = (?pre @ days_string p @ ?mid) @ assignees_string p @ ?post"
    by (rule replace_s_first) (simp_all add: d a)
  show ?thesis
    unfolding comment_message_def 1 2 3 by simp
qed

lemma needs_review_not_inactive:
  assumes "logins_ok p"
  shows "\<not> str_includes (comment_message needsReviewTemplate p) ''This PR has been inactive''"
proof -
  let ?pre = "[CHR 0xF0, CHR 0x9F, CHR 0x91, CHR 0x80] @ '' This PR has been open for ''"
  let ?mid = "'' days without any reviews. ''"
  let ?post = "'' please take a look!''"
  let ?D = "days_string p"
  let ?A = "assignees_string p"
  note A = assignees_string_props [OF assms]
  note D = days_string_props [of p]
  have pre: "\<not> sublist '' i'' ?pre" by (simp add: sublist_Cons_right)
  have mid: "\<not> sublist '' i'' ?mid" by (simp add: sublist_Cons_right)
  have post: "\<not> sublist '' i'' ?post" by (simp add: sublist_Cons_right)
  have dd: "\<not> sublist '' i'' ?D" using D by (simp add: sp_i_no_space)
  have 1: "\<not> sublist '' i'' (?A @ ?post)"
    unfolding pair_sublist_append using A post by simp
  have 2: "\<not> sublist '' i'' (?mid @ ?A @ ?post)"
    unfolding pair_sublist_append [of _ _ ?mid] using A mid 1 by simp
  have 3: "\<not> sublist '' i'' (?D @ ?mid @ ?A @ ?post)"
    unfolding pair_sublist_append [of _ _ ?D] using D dd 2 by simp
  have 4: "\<not> sublist '' i'' (?pre @ ?D @ ?mid @ ?A @ ?post)"
    unfolding pair_sublist_append [of _ _ ?pre] using D pre 3 by simp
  have n: "sublist '' i'' ''This PR has been inactive''"
    by (simp add: sublist_Cons_right)
  have "\<not> sublist ''This PR has been inactive'' (?pre @ ?D @ ?mid @ ?A @ ?post)"
    using 4 n sublist_order.order_trans by blast
  then show ?thesis
    unfolding str_includes_def comment_message_needs_review [OF assms] .
qed

lemma hasRecentBotComment_builtin:
  assumes "\<forall>c\<in>set cs. user_type c = ''Bot'' \<longrightarrow>
             (\<exists>q. logins_ok q \<and> body c = comment_message needsReviewTemplate q)"
  shows "hasRecentBotComment cs (\<lambda>c. str_includes (body c) ''This PR has been inactive'') d now
         = None"
  unfolding hasRecentBotComment_def find_None_iff
  using assms needs_review_not_inactive by fastforce

lemma commentOnPRs_never_skips:
  assumes "\<forall>p\<in>set prs. logins_ok p"
    and "\<forall>p\<in>set prs. \<forall>c\<in>set (store (number p)). user_type c = ''Bot'' \<longrightarrow>
             (\<exists>q. logins_ok q \<and> body c = comment_message needsReviewTemplate q)"
  shows "commentOnPRs prs needsReviewTemplate d now store =
         foldl (\<lambda>st p. createComment st (number p) (comment_message needsReviewTemplate p) now)
           store prs"
  using assms unfolding commentOnPRs_def
proof (induction prs arbitrary: store)
  case Nil
  then show ?case by simp
next
  case (Cons p prs)
  let ?st = "createComment store (number p) (comment_message needsReviewTemplate p) now"
  have ok: "logins_ok p" using Cons.prems(1) by simp
  have none: "hasRecentBotComment (store (number p))
        (\<lambda>c. str_includes (body c) ''This PR has been inactive'') d now = None"
    using Cons.prems(2) by (intro hasRecentBotComment_builtin) simp
  then have step: "commentOnPR needsReviewTemplate d now store p = ?st"
    by (simp add: commentOnPR_def)
  have inv: "\<forall>q\<in>set prs. \<forall>c\<in>set (?st (number q)). user_type c = ''Bot'' \<longrightarrow>
             (\<exists>q. logins_ok q \<and> body c = comment_message needsReviewTemplate q)"
    using Cons.prems(2) ok by (auto simp: createComment_def)
  have "foldl (commentOnPR needsReviewTemplate d now) ?st prs =
        foldl (\<lambda>st p. createComment st (number p) (comment_message needsReviewTemplate p) now) ?st prs"
    using Cons.IH [OF _ inv] Cons.prems(1) by simp
  then show ?case using step by simp
qed

lemma find_skip:
  "\<not> P c \<Longrightarrow> List.find P (xs @ c # ys) = List.find P (xs @ ys)"
  by (induction xs) simp_all

lemma hasRecentBotComment_skip:
  assumes "logins_ok q" and "body c = comment_message needsReviewTemplate q"
  shows "hasRecentBotComment (xs @ c # ys)
           (\<lambda>c. str_includes (body c) ''This PR has been inactive'') d now
       = hasRecentBotComment (xs @ ys)
           (\<lambda>c. str_includes (body c) ''This PR has been inactive'') d now"
  unfolding hasRecentBotComment_def
  using needs_review_not_inactive [OF assms(1)] assms(2) by (intro find_skip) simp

text \<open>
  C9 (the de-duplication never fires on needs-review comments), as amended. For pull
  requests whose login names are well-formed, the comment built from the needs-review
  template never contains \<open>This PR has been inactive\<close>. Hence a needs-review comment
  never suppresses a new comment: taking it out of a thread leaves the search for a
  recent bot comment unchanged. And on threads whose bot comments are all needs-review
  comments, no recent bot comment is found, whatever the threshold and the time, and
  \<open>commentOnPRs\<close> posts on every pull request of its list: what it appends keeps the
  premise true, so every later run posts again.
\<close>

theorem needs_review_comment_never_deduplicated:
  assumes "\<forall>p\<in>set prs. logins_ok p"
    and "\<forall>p\<in>set prs. \<forall>c\<in>set (store (number p)). user_type c = ''Bot'' \<longrightarrow>
             (\<exists>q. logins_ok q \<and> body c = comment_message needsReviewTemplate q)"
  shows "(\<forall>p\<in>set prs.
            \<not> str_includes (comment_message needsReviewTemplate p) ''This PR has been inactive''
            \<and> hasRecentBotComment (store (number p))
                 (\<lambda>c. str_includes (body c) ''This PR has been inactive'') dayThreshold now = None)
     \<and> (\<forall>q c xs ys. logins_ok q \<and> body c = comment_message needsReviewTemplate q \<longrightarrow>
           hasRecentBotComment (xs @ c # ys)
             (\<lambda>c. str_includes (body c) ''This PR has been inactive'') dayThreshold now
           = hasRecentBotComment (xs @ ys)
               (\<lambda>c. str_includes (body c) ''This PR has been inactive'') dayThreshold now)
     \<and> commentOnPRs prs needsReviewTemplate dayThreshold now store =
         foldl (\<lambda>st p. createComment st (number p) (comment_message needsReviewTemplate p) now)
           store prs"
proof -
  have a: "\<forall>p\<in>set prs.
            \<not> str_includes (comment_message needsReviewTemplate p) ''This PR has been inactive''
            \<and> hasRecentBotComment (store (number p))
                 (\<lambda>c. str_includes (body c) ''This PR has been inactive'') dayThreshold now = None"
    using assms needs_review_not_inactive hasRecentBotComment_builtin by simp
  have b: "\<forall>q c xs ys. logins_ok q \<and> body c = comment_message needsReviewTemplate q \<longrightarrow>
           hasRecentBotComment (xs @ c # ys)
             (\<lambda>c. str_includes (body c) ''This PR has been inactive'') dayThreshold now
           = hasRecentBotComment (xs @ ys)
               (\<lambda>c. str_includes (body c) ''This PR has been inactive'') dayThreshold now"
    using hasRecentBotComment_skip by blast
  show ?thesis
    using a b commentOnPRs_never_skips [OF assms] by blast
qed

text \<open>
  The claim as stated fails for a pull request that is stalled as well: \<open>run\<close>
  comments on the stalled pull requests first, and with a configured message that
  begins \<open>This PR has been inactive\<close> that comment is a recent bot comment which
  suppresses the needs-review comment of the same run.
\<close>

theorem needs_review_comment_never_deduplicated_counterexample:
  "run_comments True ''This PR has been inactive for {days} days''
     [\<lparr>number = 7, author = ''octocat'', daysSinceCreated = Some 9, daysSinceUpdate = Some 8,
       assignees = Some [], requested_reviewers = Some []\<rparr>]
     [\<lparr>number = 7, author = ''octocat'', daysSinceCreated = Some 9, daysSinceUpdate = None,
       assignees = Some [], requested_reviewers = Some []\<rparr>]
     200000000 (\<lambda>n. []) 7
   = [\<lparr>user_type = ''Bot'', body = ''This PR has been inactive for 9 days'',
       created_at = Some 200000000\<rparr>]"
  by (simp add: run_comments_def commentOnPRs_def commentOnPR_def hasRecentBotComment_def
      createComment_def comment_message_def replace_s_def days_string_def assignees_string_def
      show_nat.simps [of 9] str_includes_def sublist_Cons_right)

theorem needs_review_comment_never_deduplicated_witness:
  "map body
     (commentOnPRs
        [\<lparr>number = 7, author = ''octocat'', daysSinceCreated = Some 3, daysSinceUpdate = None,
          assignees = Some [], requested_reviewers = Some [''hubot'']\<rparr>]
        needsReviewTemplate 7 200000000
        (\<lambda>n. if n = 7
             then [\<lparr>user_type = ''Bot'',
                    body = [CHR 0xF0, CHR 0x9F, CHR 0x91, CHR 0x80] @
                      '' This PR has been open for 2 days without any reviews. @octocat @hubot please take a look!'',
                    created_at = Some 100000000\<rparr>]
             else [])
        7)
   = [[CHR 0xF0, CHR 0x9F, CHR 0x91, CHR 0x80] @
        '' This PR has been open for 2 days without any reviews. @octocat @hubot please take a look!'',
      [CHR 0xF0, CHR 0x9F, CHR 0x91, CHR 0x80] @
        '' This PR has been open for 3 days without any reviews. @octocat @hubot please take a look!'']"
proof -
  let ?P = "\<lambda>k. \<lparr>number = 7, author = ''octocat'', daysSinceCreated = Some k, daysSinceUpdate = None,
          assignees = Some [], requested_reviewers = Some [''hubot'']\<rparr>"
  let ?store = "\<lambda>n::nat. if n = 7
             then [\<lparr>user_type = ''Bot'',
                    body = [CHR 0xF0, CHR 0x9F, CHR 0x91, CHR 0x80] @
                      '' This PR has been open for 2 days without any reviews. @octocat @hubot please take a look!'',
                    created_at = Some 100000000\<rparr>]
             else []"
  have ok: "logins_ok (?P k)" for k
    by (simp add: logins_ok_def login_ok_def)
  have m2: "comment_message needsReviewTemplate (?P 2) = [CHR 0xF0, CHR 0x9F, CHR 0x91, CHR 0x80] @
        '' This PR has been open for 2 days without any reviews. @octocat @hubot please take a look!''"
    unfolding comment_message_needs_review [OF ok]
    by (simp add: days_string_def assignees_string_def show_nat.simps [of 2])
  have m3: "comment_message needsReviewTemplate (?P 3) = [CHR 0xF0, CHR 0x9F, CHR 0x91, CHR 0x80] @
        '' This PR has been open for 3 days without any reviews. @octocat @hubot please take a look!''"
    unfolding comment_message_needs_review [OF ok]
    by (simp add: days_string_def assignees_string_def show_nat.simps [of 3])
  have h1: "\<forall>p\<in>set [?P 3]. logins_ok p" using ok by simp
  have "\<exists>q. logins_ok q \<and> [CHR 0xF0, CHR 0x9F, CHR 0x91, CHR 0x80] @
        '' This PR has been open for 2 days without any reviews. @octocat @hubot please take a look!''
         = comment_message needsReviewTemplate q"
    using ok [of 2] m2 [symmetric] by blast
  then have h2: "\<forall>p\<in>set [?P 3]. \<forall>c\<in>set (?store (number p)). user_type c = ''Bot'' \<longrightarrow>
             (\<exists>q. logins_ok q \<and> body c = comment_message needsReviewTemplate q)"
    by simp
  have eq: "commentOnPRs [?P 3] needsReviewTemplate 7 200000000 ?store
      = createComment ?store 7 (comment_message needsReviewTemplate (?P 3)) 200000000"
    using needs_review_comment_never_deduplicated [OF h1 h2, of 7 200000000] by simp
  show ?thesis
    unfolding eq m3 by (simp add: createComment_def)
qed

section \<open>Properties of the glob translation\<close>

lemma replace_g_absent:
  "c \<in> set lit \<Longrightarrow> c \<notin> set s \<Longrightarrow> replace_g lit rep s = s"
proof (induction s)
  case Nil
  then show ?case by simp
next
  case (Cons x s)
  have "\<not> prefix lit (x # s)"
  proof
    assume "prefix lit (x # s)"
    then have "set lit \<subseteq> set (x # s)" by (rule set_mono_prefix)
    with Cons.prems show False by auto
  qed
  with Cons show ?case by simp
qed

lemma escape_dots_set: "set (replace_g ''.'' [CHR 0x5C, CHR ''.''] s) \<subseteq> set s \<union> {CHR 0x5C}"
  by (induction s) auto

lemma escape_dots_star:
  "prefix ''*'' (replace_g ''.'' [CHR 0x5C, CHR ''.''] s) \<longleftrightarrow> prefix ''*'' s"
  by (cases s) auto

lemma regexPattern_no_slash:
  assumes "CHR ''/'' \<notin> set s"
  shows "regexPattern s =
     replace_g ''*'' ''[^/]*'' (replace_g ''**'' ''.*'' (replace_g ''.'' [CHR 0x5C, CHR ''.''] s))"
proof -
  have "CHR ''/'' \<notin> set (replace_g ''.'' [CHR 0x5C, CHR ''.''] s)"
    using assms escape_dots_set [of s] by auto
  then show ?thesis
    by (simp add: regexPattern_def replace_g_absent [of "CHR ''/''"])
qed

lemma regexPattern_dirs:
  assumes "CHR ''/'' \<notin> set s"
  shows "regexPattern (''**/'' @ s) = (''(.[^/]*'' @ CHR 0x5C # ''/)?'') @ regexPattern s"
proof -
  have "CHR ''/'' \<notin> set (replace_g ''.'' [CHR 0x5C, CHR ''.''] s)"
    using assms escape_dots_set [of s] by auto
  then show ?thesis
    unfolding regexPattern_no_slash [OF assms]
    by (simp add: regexPattern_def replace_g_absent [of "CHR ''/''"])
qed

lemma regexPattern_star2:
  "CHR ''/'' \<notin> set s \<Longrightarrow> regexPattern (CHR ''*'' # CHR ''*'' # s) = ''.[^/]*'' @ regexPattern s"
  by (simp add: regexPattern_no_slash)

lemma regexPattern_star1:
  "CHR ''/'' \<notin> set s \<Longrightarrow> \<not> prefix ''*'' s \<Longrightarrow>
   regexPattern (CHR ''*'' # s) = ''[^/]*'' @ regexPattern s"
  using escape_dots_star [of s] by (simp add: regexPattern_no_slash)

lemma regexPattern_dot:
  "CHR ''/'' \<notin> set s \<Longrightarrow> regexPattern (CHR ''.'' # s) = [CHR 0x5C, CHR ''.''] @ regexPattern s"
  by (simp add: regexPattern_no_slash)

lemma regexPattern_chr:
  "CHR ''/'' \<notin> set s \<Longrightarrow> c \<noteq> CHR ''/'' \<Longrightarrow> c \<noteq> CHR ''.'' \<Longrightarrow> c \<noteq> CHR ''*'' \<Longrightarrow>
   regexPattern (c # s) = c # regexPattern s"
  by (simp add: regexPattern_no_slash)

lemma psteps_chr:
  "\<not> syntax_char c \<Longrightarrow>
   psteps (Normal, Frame al its # fs) (c # rest) =
   psteps (Normal, Frame al (its @ [(Chr c, Quantifiable)]) # fs) rest"
  by (auto simp: pstep_def push_item_def syntax_char_def)

lemma psteps_escaped_dot:
  "psteps (Normal, Frame al its # fs) (CHR 0x5C # CHR ''.'' # rest) =
   psteps (Normal, Frame al (its @ [(Chr CHR ''.'', Quantifiable)]) # fs) rest"
  by (simp add: pstep_def push_item_def syntax_char_def)

lemma psteps_star1:
  "psteps (Normal, Frame al its # fs) (''[^/]*'' @ rest) =
   psteps (Normal, Frame al (its @ [(Star (Cls True ''/''), Quantified)]) # fs) rest"
  by (simp add: pstep_def push_item_def quantify_def)

lemma psteps_star2:
  "psteps (Normal, Frame al its # fs) (''.[^/]*'' @ rest) =
   psteps (Normal, Frame al (its @ [(Dot, Quantifiable), (Star (Cls True ''/''), Quantified)]) # fs) rest"
  by (simp add: pstep_def push_item_def quantify_def butlast_append)

lemma concat_map_concat_map:
  "concat (map g (concat (map h xs))) = concat (map (\<lambda>j. concat (map g (h j))) xs)"
  by (induction xs) simp_all

lemma ends_seq_of_append:
  "ends (seq_of (xs @ ys)) str i = concat (map (ends (seq_of ys) str) (ends (seq_of xs) str i))"
proof (induction xs arbitrary: i)
  case Nil
  then show ?case by (simp add: seq_of_def)
next
  case (Cons x xs)
  have "ends (seq_of ((x # xs) @ ys)) str i
      = concat (map (ends (seq_of (xs @ ys)) str) (ends (fst x) str i))"
    by (simp add: seq_of_def)
  also have "\<dots> = concat (map (\<lambda>j. concat (map (ends (seq_of ys) str) (ends (seq_of xs) str j)))
                       (ends (fst x) str i))"
  proof -
    have "ends (seq_of (xs @ ys)) str
        = (\<lambda>j. concat (map (ends (seq_of ys) str) (ends (seq_of xs) str j)))"
      using Cons.IH by (intro ext)
    then show ?thesis by (simp only:)
  qed
  also have "\<dots> = concat (map (ends (seq_of ys) str) (ends (seq_of (x # xs)) str i))"
    by (simp add: seq_of_def concat_map_concat_map)
  finally show ?case .
qed

lemma seq_of_mem:
  "j \<in> set (ends (seq_of xs) str i) \<Longrightarrow> k \<in> set (ends (seq_of ys) str j) \<Longrightarrow>
   k \<in> set (ends (seq_of (xs @ ys)) str i)"
  by (auto simp: ends_seq_of_append)

lemma seq_of_memD:
  "k \<in> set (ends (seq_of (xs @ ys)) str i) \<Longrightarrow>
   \<exists>j. j \<in> set (ends (seq_of xs) str i) \<and> k \<in> set (ends (seq_of ys) str j)"
  by (auto simp: ends_seq_of_append)

lemma reach_self: "i \<in> set (reach f n i)"
  by (cases n) simp_all

lemma reach_step:
  "f i = [Suc i] \<Longrightarrow> k \<in> set (reach f m (Suc i)) \<Longrightarrow> k \<in> set (reach f (Suc m) i)"
  by simp

lemma reach_run:
  "\<forall>k<m. f (i + k) = [Suc (i + k)] \<Longrightarrow> m \<le> n \<Longrightarrow> i + m \<in> set (reach f n i)"
proof (induction m arbitrary: i n)
  case 0
  then show ?case by (simp add: reach_self)
next
  case (Suc m)
  then obtain n' where n: "n = Suc n'" by (cases n) auto
  have first: "f i = [Suc i]" using Suc.prems(1) [rule_format, of 0] by simp
  have "\<forall>k<m. f (Suc i + k) = [Suc (Suc i + k)]"
    using Suc.prems(1) [rule_format, of "Suc k" for k] by simp
  then have "Suc i + m \<in> set (reach f n' (Suc i))"
    using Suc.prems(2) n by (intro Suc.IH) simp_all
  from reach_step [OF first this] show ?case unfolding n by simp
qed

lemma reach_not_slash:
  assumes "CHR ''/'' \<notin> set u" and "length u \<le> n"
  shows "length pre + length u
     \<in> set (reach (ends (Cls True ''/'') (pre @ u @ post)) n (length pre))"
proof (rule reach_run [OF _ assms(2)])
  show "\<forall>k<length u. ends (Cls True ''/'') (pre @ u @ post) (length pre + k)
          = [Suc (length pre + k)]"
  proof (intro allI impI)
    fix k assume k: "k < length u"
    then have "(pre @ u @ post) ! (length pre + k) = u ! k" by (simp add: nth_append)
    moreover have "u ! k \<noteq> CHR ''/''" using assms(1) k nth_mem by fastforce
    ultimately show "ends (Cls True ''/'') (pre @ u @ post) (length pre + k)
          = [Suc (length pre + k)]"
      using k by simp
  qed
qed

lemma ends_single: "k \<in> set (ends r S i) \<Longrightarrow> k \<in> set (ends (seq_of [(r, q)]) S i)"
  by (simp add: seq_of_def)

lemma ends_Star: "k \<in> set (reach (ends r S) (length S) i) \<Longrightarrow> k \<in> set (ends (Star r) S i)"
  by simp

lemma reach_one:
  assumes "c \<noteq> CHR ''/''"
  shows "Suc (length pre)
     \<in> set (reach (ends (Cls True ''/'') (pre @ c # r)) (length (pre @ c # r)) (length pre))"
proof -
  obtain m where m: "length (pre @ c # r) = Suc m" by simp
  have first: "ends (Cls True ''/'') (pre @ c # r) (length pre) = [Suc (length pre)]"
    using assms by simp
  show ?thesis unfolding m
    by (rule reach_step [of "ends (Cls True ''/'') (pre @ c # r)" "length pre", OF first reach_self])
qed

lemma sem_chr:
  "Suc (length pre) \<in> set (ends (seq_of [(Chr c, q)]) (pre @ c # r) (length pre))"
  by (rule ends_single) simp

lemma sem_star1:
  "Suc (length pre)
     \<in> set (ends (seq_of [(Star (Cls True ''/''), q)]) (pre @ CHR ''*'' # r) (length pre))"
  by (rule ends_single, rule ends_Star, rule reach_one) simp

lemma sem_star2:
  "Suc (Suc (length pre))
     \<in> set (ends (seq_of [(Dot, q), (Star (Cls True ''/''), q')])
              (pre @ CHR ''*'' # CHR ''*'' # r) (length pre))"
proof -
  let ?S = "pre @ CHR ''*'' # CHR ''*'' # r"
  have S: "?S = (pre @ ''*'') @ CHR ''*'' # r" by simp
  have 1: "Suc (length pre) \<in> set (ends (seq_of [(Dot, q)]) ?S (length pre))"
    by (rule ends_single) (simp add: line_terminator_def)
  have "Suc (length (pre @ ''*''))
     \<in> set (ends (seq_of [(Star (Cls True ''/''), q')]) ((pre @ ''*'') @ CHR ''*'' # r)
              (length (pre @ ''*'')))"
    by (rule sem_star1)
  then have 2: "Suc (Suc (length pre))
     \<in> set (ends (seq_of [(Star (Cls True ''/''), q')]) ?S (Suc (length pre)))"
    unfolding S [symmetric] by (simp only: length_append list.size add_Suc_right add_0_right One_nat_def)
  from seq_of_mem [OF 1 2] show ?thesis by simp
qed

lemma glob_items:
  assumes "\<forall>c\<in>set s. syntax_char c \<longrightarrow> c = CHR ''.'' \<or> c = CHR ''*''"
  shows "\<exists>ts. (\<forall>al its fs rest.
                 psteps (Normal, Frame al its # fs) (regexPattern s @ rest) =
                 psteps (Normal, Frame al (its @ ts) # fs) rest)
            \<and> (\<forall>pre post. length pre + length s
                   \<in> set (ends (seq_of ts) (pre @ s @ post) (length pre)))"
  using assms
proof (induction s rule: length_induct)
  case (1 s)
  have slash: "syntax_char CHR ''/''" by (simp add: syntax_char_def)
  have ns: "CHR ''/'' \<notin> set s" using "1.prems" slash by fastforce
  have step: "\<exists>ts. (\<forall>al its fs rest.
                 psteps (Normal, Frame al its # fs) (regexPattern s @ rest) =
                 psteps (Normal, Frame al (its @ ts) # fs) rest)
            \<and> (\<forall>pre post. length pre + length s
                   \<in> set (ends (seq_of ts) (pre @ s @ post) (length pre)))"
    if s: "s = tok @ s'" and tok: "tok \<noteq> []"
      and rp: "regexPattern s = rtok @ regexPattern s'"
      and parse: "\<And>al its fs rest. psteps (Normal, Frame al its # fs) (rtok @ rest) =
                 psteps (Normal, Frame al (its @ tts) # fs) rest"
      and sem: "\<And>pre r. length pre + length tok
                   \<in> set (ends (seq_of tts) (pre @ tok @ r) (length pre))"
    for tok s' rtok tts
  proof -
    have "length s' < length s" using s tok by simp
    moreover have "\<forall>c\<in>set s'. syntax_char c \<longrightarrow> c = CHR ''.'' \<or> c = CHR ''*''"
      using "1.prems" s by simp
    ultimately obtain ts' where ts':
      "\<And>al its fs rest. psteps (Normal, Frame al its # fs) (regexPattern s' @ rest) =
                 psteps (Normal, Frame al (its @ ts') # fs) rest"
      "\<And>pre post. length pre + length s'
                   \<in> set (ends (seq_of ts') (pre @ s' @ post) (length pre))"
      using "1.IH" by blast
    have p: "psteps (Normal, Frame al its # fs) (regexPattern s @ rest) =
                 psteps (Normal, Frame al (its @ (tts @ ts')) # fs) rest" for al its fs rest
      using parse [of al its fs "regexPattern s' @ rest"] ts'(1) [of al "its @ tts" fs rest]
      by (simp add: rp)
    have m: "length pre + length s
                   \<in> set (ends (seq_of (tts @ ts')) (pre @ s @ post) (length pre))" for pre post
    proof -
      have a: "length pre + length tok
           \<in> set (ends (seq_of tts) (pre @ s @ post) (length pre))"
        using sem [of pre "s' @ post"] by (simp add: s)
      have "length (pre @ tok) + length s'
           \<in> set (ends (seq_of ts') ((pre @ tok) @ s' @ post) (length (pre @ tok)))"
        by (rule ts'(2))
      then have b: "length pre + length s
           \<in> set (ends (seq_of ts') (pre @ s @ post) (length pre + length tok))"
        by (simp add: s add.assoc)
      from seq_of_mem [OF a b] show ?thesis .
    qed
    from p m show ?thesis by blast
  qed
  show ?case
  proof (cases s)
    case Nil
    have "regexPattern [] = []" by (simp add: regexPattern_def)
    then have "(\<forall>al its fs rest.
                 psteps (Normal, Frame al its # fs) (regexPattern s @ rest) =
                 psteps (Normal, Frame al (its @ []) # fs) rest)
            \<and> (\<forall>pre post. length pre + length s
                   \<in> set (ends (seq_of []) (pre @ s @ post) (length pre)))"
      using Nil by (simp add: seq_of_def)
    then show ?thesis by blast
  next
    case (Cons c s')
    have ns': "CHR ''/'' \<notin> set s'" using ns Cons by simp
    consider (star2) s'' where "c = CHR ''*''" "s' = CHR ''*'' # s''"
      | (star1) "c = CHR ''*''" "\<not> prefix ''*'' s'"
      | (dot) "c = CHR ''.''"
      | (chr) "c \<noteq> CHR ''*''" "c \<noteq> CHR ''.''"
      by (cases s') auto
    then show ?thesis
    proof cases
      case star2
      have ns'': "CHR ''/'' \<notin> set s''" using ns' star2 by simp
      show ?thesis
      proof (rule step [of "''**''" s'' "''.[^/]*''"
                    "[(Dot, Quantifiable), (Star (Cls True ''/''), Quantified)]"])
        show "s = ''**'' @ s''" using Cons star2 by simp
        show "regexPattern s = ''.[^/]*'' @ regexPattern s''"
          using Cons star2 regexPattern_star2 [OF ns''] by simp
        show "psteps (Normal, Frame al its # fs) (''.[^/]*'' @ rest) =
                 psteps (Normal, Frame al (its @ [(Dot, Quantifiable), (Star (Cls True ''/''), Quantified)]) # fs) rest"
          for al its fs rest by (rule psteps_star2)
        show "length pre + length ''**''
           \<in> set (ends (seq_of [(Dot, Quantifiable), (Star (Cls True ''/''), Quantified)])
                    (pre @ ''**'' @ r) (length pre))" for pre r
          using sem_star2 [of pre Quantifiable Quantified r] by simp
      qed simp
    next
      case star1
      show ?thesis
      proof (rule step [of "''*''" s' "''[^/]*''" "[(Star (Cls True ''/''), Quantified)]"])
        show "s = ''*'' @ s'" using Cons star1 by simp
        show "regexPattern s = ''[^/]*'' @ regexPattern s'"
          using Cons star1 regexPattern_star1 [OF ns'] by simp
        show "psteps (Normal, Frame al its # fs) (''[^/]*'' @ rest) =
                 psteps (Normal, Frame al (its @ [(Star (Cls True ''/''), Quantified)]) # fs) rest"
          for al its fs rest by (rule psteps_star1)
        show "length pre + length ''*''
           \<in> set (ends (seq_of [(Star (Cls True ''/''), Quantified)])
                    (pre @ ''*'' @ r) (length pre))" for pre r
          using sem_star1 [of pre Quantified r] by simp
      qed simp
    next
      case dot
      show ?thesis
      proof (rule step [of "''.''" s' "[CHR 0x5C, CHR ''.'']" "[(Chr CHR ''.'', Quantifiable)]"])
        show "s = ''.'' @ s'" using Cons dot by simp
        show "regexPattern s = [CHR 0x5C, CHR ''.''] @ regexPattern s'"
          using Cons dot regexPattern_dot [OF ns'] by simp
        show "psteps (Normal, Frame al its # fs) ([CHR 0x5C, CHR ''.''] @ rest) =
                 psteps (Normal, Frame al (its @ [(Chr CHR ''.'', Quantifiable)]) # fs) rest"
          for al its fs rest using psteps_escaped_dot by simp
        show "length pre + length ''.''
           \<in> set (ends (seq_of [(Chr CHR ''.'', Quantifiable)]) (pre @ ''.'' @ r) (length pre))"
          for pre r
          using sem_chr [of pre "CHR ''.''" Quantifiable r] by simp
      qed simp
    next
      case chr
      have nsc: "\<not> syntax_char c" using "1.prems" Cons chr by auto
      have cs: "c \<noteq> CHR ''/''" using nsc slash by auto
      show ?thesis
      proof (rule step [of "[c]" s' "[c]" "[(Chr c, Quantifiable)]"])
        show "s = [c] @ s'" using Cons by simp
        show "regexPattern s = [c] @ regexPattern s'"
          using Cons chr cs regexPattern_chr [OF ns'] by simp
        show "psteps (Normal, Frame al its # fs) ([c] @ rest) =
                 psteps (Normal, Frame al (its @ [(Chr c, Quantifiable)]) # fs) rest"
          for al its fs rest using psteps_chr [OF nsc] by simp
        show "length pre + length [c]
           \<in> set (ends (seq_of [(Chr c, Quantifiable)]) (pre @ [c] @ r) (length pre))"
          for pre r
          using sem_chr [of pre c Quantifiable r] by simp
      qed simp
    qed
  qed
qed

lemma RegExp_glob:
  assumes "\<And>al its fs rest. psteps (Normal, Frame al its # fs) (regexPattern s @ rest) =
                 psteps (Normal, Frame al (its @ ts) # fs) rest"
  shows "RegExp (''^'' @ regexPattern s @ ''$'')
       = Inr (seq_of ([(Bol, Fixed)] @ ts @ [(Eol, Fixed)]))"
proof -
  have "psteps (Normal, [Frame [] []]) (''^'' @ regexPattern s @ ''$'')
      = psteps (Normal, [Frame [] [(Bol, Fixed)]]) (regexPattern s @ ''$'')"
    by (simp add: pstep_def push_assert_def)
  also have "\<dots> = psteps (Normal, [Frame [] ([(Bol, Fixed)] @ ts)]) ''$''"
    by (rule assms)
  also have "\<dots> = Inr (Normal, [Frame [] ([(Bol, Fixed)] @ ts @ [(Eol, Fixed)])])"
    by (simp add: pstep_def push_assert_def)
  finally show ?thesis by (simp add: RegExp_def close_frame_def)
qed

lemma RegExp_glob_dirs:
  assumes "\<And>al its fs rest. psteps (Normal, Frame al its # fs) (regexPattern s @ rest) =
                 psteps (Normal, Frame al (its @ ts) # fs) rest"
    and "CHR ''/'' \<notin> set s"
  shows "RegExp (''^'' @ regexPattern (''**/'' @ s) @ ''$'')
       = Inr (seq_of ([(Bol, Fixed),
                       (Opt (seq_of [(Dot, Quantifiable), (Star (Cls True ''/''), Quantified),
                                     (Chr CHR ''/'', Quantifiable)]), Quantified)]
                      @ ts @ [(Eol, Fixed)]))"
proof -
  let ?G = "seq_of [(Dot, Quantifiable), (Star (Cls True ''/''), Quantified),
                    (Chr CHR ''/'', Quantifiable)]"
  have "psteps (Normal, [Frame [] []]) (''^'' @ regexPattern (''**/'' @ s) @ ''$'')
      = psteps (Normal, [Frame [] [(Bol, Fixed), (Opt ?G, Quantified)]]) (regexPattern s @ ''$'')"
    unfolding regexPattern_dirs [OF assms(2)]
    by (simp add: pstep_def push_assert_def push_item_def quantify_def syntax_char_def
        close_frame_def butlast_append)
  also have "\<dots> = psteps (Normal, [Frame [] ([(Bol, Fixed), (Opt ?G, Quantified)] @ ts)]) ''$''"
    by (rule assms(1))
  also have "\<dots> = Inr (Normal, [Frame [] ([(Bol, Fixed), (Opt ?G, Quantified)] @ ts @ [(Eol, Fixed)])])"
    by (simp add: pstep_def push_assert_def)
  finally show ?thesis by (simp add: RegExp_def close_frame_def)
qed

lemma re_test_dirs:
  assumes "length f \<in> set (ends (seq_of ts) f 0)"
  shows "re_test (seq_of ([(Bol, Fixed), (Opt G, Quantified)] @ ts @ [(Eol, Fixed)])) f"
proof -
  have 1: "0 \<in> set (ends (seq_of [(Bol, Fixed), (Opt G, Quantified)]) f 0)"
    by (simp add: seq_of_def)
  have 2: "length f \<in> set (ends (seq_of [(Eol, Fixed)]) f (length f))"
    by (simp add: seq_of_def)
  have "length f \<in> set (ends (seq_of ([(Bol, Fixed), (Opt G, Quantified)] @ ts @ [(Eol, Fixed)])) f 0)"
    by (rule seq_of_mem [OF 1 seq_of_mem [OF assms 2]])
  then have "ends (seq_of ([(Bol, Fixed), (Opt G, Quantified)] @ ts @ [(Eol, Fixed)])) f 0 \<noteq> []"
    by auto
  then show ?thesis
    unfolding re_test_def list_ex_iff by (intro bexI [of _ 0]) simp_all
qed

lemma re_test_globD:
  assumes "re_test (seq_of ([(Bol, Fixed)] @ ts @ [(Eol, Fixed)])) f"
  shows "length f \<in> set (ends (seq_of ts) f 0)"
proof -
  from assms obtain i k where k: "k \<in> set (ends (seq_of ([(Bol, Fixed)] @ ts @ [(Eol, Fixed)])) f i)"
    unfolding re_test_def list_ex_iff by (meson last_in_set)
  from seq_of_memD [OF k] obtain j where
    j: "j \<in> set (ends (seq_of [(Bol, Fixed)]) f i)" "k \<in> set (ends (seq_of (ts @ [(Eol, Fixed)])) f j)"
    by blast
  from j(1) have "j = 0" by (simp add: seq_of_def split: if_splits)
  with seq_of_memD [OF j(2)] obtain m where
    m: "m \<in> set (ends (seq_of ts) f 0)" "k \<in> set (ends (seq_of [(Eol, Fixed)]) f m)"
    by blast
  from m(2) have "m = length f" by (simp add: seq_of_def split: if_splits)
  with m(1) show ?thesis by simp
qed

text \<open>
  C5 (double wildcard at depth zero), as amended. Let the suffix be non-empty, without a
  slash and without a character of the expression syntax other than \<open>*\<close> and
  \<open>.\<close>. Then every file name without a slash that the matcher accepts for the
  suffix is accepted for \<open>**/\<close> followed by the suffix.
\<close>

theorem double_wildcard_zero_depth:
  assumes ne: "s \<noteq> []"
    and glob: "\<forall>c\<in>set s. syntax_char c \<longrightarrow> c = CHR ''.'' \<or> c = CHR ''*''"
    and bare: "CHR ''/'' \<notin> set f"
    and sat: "matchPattern f s = Inr True"
  shows "matchPattern f (''**/'' @ s) = Inr True"
proof -
  let ?G = "seq_of [(Dot, Quantifiable), (Star (Cls True ''/''), Quantified),
                    (Chr CHR ''/'', Quantifiable)]"
  have slash: "syntax_char CHR ''/''" by (simp add: syntax_char_def)
  have ns: "CHR ''/'' \<notin> set s" using glob slash by fastforce
  have nf: "\<not> startsWith f ''/''" using bare by (cases f) (auto simp: startsWith_def)
  have nsl: "\<not> startsWith s ''/''" using ns by (cases s) (auto simp: startsWith_def)
  have ls: "last s \<noteq> CHR ''/''" using ns last_in_set [OF ne] by metis
  have nend: "\<not> endsWith s ''/''"
    using ls by (simp add: endsWith_def suffix_single)
  have nend': "\<not> endsWith (''**/'' @ s) ''/''"
    using ls ne by (simp add: endsWith_def suffix_single)
  have neq: "f \<noteq> ''**/'' @ s" using bare by auto
  have dirs: "matchPattern f (''**/'' @ s) =
      (case RegExp (''^'' @ regexPattern (''**/'' @ s) @ ''$'') of
         Inl e \<Rightarrow> Inl e | Inr regex \<Rightarrow> Inr (re_test regex f))"
    unfolding matchPattern_def Let_def using nf nend' neq by (simp add: startsWith_def)
  have "\<exists>ts. (\<forall>al its fs rest.
                 psteps (Normal, Frame al its # fs) (regexPattern s @ rest) =
                 psteps (Normal, Frame al (its @ ts) # fs) rest)
            \<and> length f \<in> set (ends (seq_of ts) f 0)"
  proof (cases "f = s")
    case True
    from glob_items [OF glob] obtain ts where ts:
      "\<forall>al its fs rest. psteps (Normal, Frame al its # fs) (regexPattern s @ rest) =
                 psteps (Normal, Frame al (its @ ts) # fs) rest"
      "\<forall>pre post. length pre + length s \<in> set (ends (seq_of ts) (pre @ s @ post) (length pre))"
      by blast
    from ts(2) [rule_format, of "[]" "[]"] have "length f \<in> set (ends (seq_of ts) f 0)"
      using True by simp
    with ts(1) show ?thesis by blast
  next
    case False
    show ?thesis
    proof (cases "s = ''*'' \<or> startsWith s ''*.''")
      case True
      then have "s = CHR ''*'' # drop 1 s \<and> \<not> prefix ''*'' (drop 1 s)"
        by (cases s; cases "drop 1 s") (auto simp: startsWith_def)
      then obtain ext where ext: "s = CHR ''*'' # ext" "\<not> prefix ''*'' ext"
        by blast
      have suf: "suffix ext f"
      proof (cases "s = ''*''")
        case True
        then show ?thesis using ext by simp
      next
        case nstar: False
        with True have "startsWith s ''*.''" by simp
        then have "matchPattern f s = Inr (endsWith f (drop 1 s))"
          unfolding matchPattern_def Let_def using nf nsl nend False nstar by simp
        with sat show ?thesis using ext by (simp add: endsWith_def)
      qed
      then obtain u where u: "f = u @ ext" by (auto simp: suffix_def)
      have nu: "CHR ''/'' \<notin> set u" using bare u by simp
      have nse: "CHR ''/'' \<notin> set ext" using ns ext by simp
      have "\<forall>c\<in>set ext. syntax_char c \<longrightarrow> c = CHR ''.'' \<or> c = CHR ''*''"
        using glob ext by simp
      from glob_items [OF this] obtain ts where ts:
        "\<And>al its fs rest. psteps (Normal, Frame al its # fs) (regexPattern ext @ rest) =
                 psteps (Normal, Frame al (its @ ts) # fs) rest"
        "\<And>pre post. length pre + length ext
             \<in> set (ends (seq_of ts) (pre @ ext @ post) (length pre))"
        by blast
      have rp: "regexPattern s = ''[^/]*'' @ regexPattern ext"
        using regexPattern_star1 [OF nse ext(2)] ext(1) by simp
      have p: "psteps (Normal, Frame al its # fs) (regexPattern s @ rest) =
                 psteps (Normal, Frame al (its @ ((Star (Cls True ''/''), Quantified) # ts)) # fs) rest"
        for al its fs rest
        using psteps_star1 [of al its fs "regexPattern ext @ rest"]
          ts(1) [of al "its @ [(Star (Cls True ''/''), Quantified)]" fs rest]
        by (simp add: rp)
      have le: "length u \<le> length f" by (simp add: u)
      have "length ([] :: string) + length u
          \<in> set (reach (ends (Cls True ''/'') ([] @ u @ ext)) (length f) (length ([] :: string)))"
        by (rule reach_not_slash [OF nu le])
      then have "length u \<in> set (reach (ends (Cls True ''/'') f) (length f) 0)"
        unfolding u by (simp only: append_Nil list.size(3) add_0)
      then have a1: "length u \<in> set (ends (seq_of [(Star (Cls True ''/''), Quantified)]) f 0)"
        by (intro ends_single ends_Star)
      have a2: "length f \<in> set (ends (seq_of ts) f (length u))"
        using ts(2) [of u "[]"] by (simp add: u)
      have "length f \<in> set (ends (seq_of ([(Star (Cls True ''/''), Quantified)] @ ts)) f 0)"
        by (rule seq_of_mem [OF a1 a2])
      then have "length f \<in> set (ends (seq_of ((Star (Cls True ''/''), Quantified) # ts)) f 0)"
        by simp
      with p show ?thesis by blast
    next
      case other: False
      from glob_items [OF glob] obtain ts where ts:
        "\<And>al its fs rest. psteps (Normal, Frame al its # fs) (regexPattern s @ rest) =
                 psteps (Normal, Frame al (its @ ts) # fs) rest"
        by blast
      have R1: "RegExp (''^'' @ regexPattern s @ ''$'')
           = Inr (seq_of ([(Bol, Fixed)] @ ts @ [(Eol, Fixed)]))"
        by (rule RegExp_glob [OF ts])
      have npre: "\<not> startsWith f (s @ ''/'')"
        using bare by (auto simp: startsWith_def prefix_def)
      have "matchPattern f s =
          (if CHR ''*'' \<in> set s
           then Inr (re_test (seq_of ([(Bol, Fixed)] @ ts @ [(Eol, Fixed)])) f)
           else Inr False)"
        unfolding matchPattern_def Let_def
        using nf nsl nend False other npre R1 by simp
      with sat have "re_test (seq_of ([(Bol, Fixed)] @ ts @ [(Eol, Fixed)])) f"
        by (simp split: if_splits)
      from re_test_globD [OF this] ts show ?thesis by blast
    qed
  qed
  then obtain ts where ts:
    "\<And>al its fs rest. psteps (Normal, Frame al its # fs) (regexPattern s @ rest) =
                 psteps (Normal, Frame al (its @ ts) # fs) rest"
    "length f \<in> set (ends (seq_of ts) f 0)"
    by blast
  have "RegExp (''^'' @ regexPattern (''**/'' @ s) @ ''$'')
       = Inr (seq_of ([(Bol, Fixed), (Opt ?G, Quantified)] @ ts @ [(Eol, Fixed)]))"
    by (rule RegExp_glob_dirs [OF ts(1) ns])
  moreover have "re_test (seq_of ([(Bol, Fixed), (Opt ?G, Quantified)] @ ts @ [(Eol, Fixed)])) f"
    by (rule re_test_dirs [OF ts(2)])
  ultimately show ?thesis unfolding dirs by simp
qed

theorem double_wildcard_zero_depth_witness:
  "matchPattern ''file.test.js'' ''*.test.js'' = Inr True
   \<and> matchPattern ''file.test.js'' ''**/*.test.js'' = Inr True"
proof -
  have h: "matchPattern ''file.test.js'' ''*.test.js'' = Inr True"
    by (simp add: mp_eval)
  have g: "\<forall>c\<in>set ''*.test.js''. syntax_char c \<longrightarrow> c = CHR ''.'' \<or> c = CHR ''*''"
    by (simp add: syntax_char_def)
  from double_wildcard_zero_depth [OF _ g _ h] h show ?thesis by simp
qed

text \<open>
  The claim as stated fails for a suffix that is a directory pattern: \<open>docs\<close>
  satisfies \<open>docs/\<close>, but \<open>**/docs/\<close> ends in a slash and is compared as the
  directory \<open>**/docs\<close>, letter by letter.
\<close>

theorem double_wildcard_zero_depth_counterexample:
  "matchPattern ''docs'' ''docs/'' = Inr True \<and> matchPattern ''docs'' (''**/'' @ ''docs/'') \<noteq> Inr True"
  by (simp add: mp_eval)

section \<open>Errors of the ownership core\<close>

text \<open>
  C2 (the core raises no error). The matcher throws on the pattern \<open>(*\<close>: only the dots
  of a pattern are escaped, so the translated expression has an unterminated group.
  The parser accepts the line that declares the pattern, and the aggregator then throws
  on any changed file.
\<close>

theorem matchPattern_raises:
  "matchPattern ''a'' ''(*'' = Inl SyntaxError
   \<and> getPRCodeowners [''a''] (parseCodeowners ''(* @bob'') = Inl SyntaxError"
  by (simp add: parse_eval getPRCodeowners_def matchFileToOwners_def mp_eval re_eval)

end
